theory Spec2Isabelle
  imports Main
begin

section \<open>Values and wire messages (types.ts)\<close>

text \<open>
  Values that cross the frame boundary are structured-clone data. The model keeps
  undefined, null, booleans, integral numbers, strings and plain objects; none of them
  is a thenable, and posting any of them never fails.
\<close>

datatype jsval =
    JUndefined
  | JNull
  | JBool bool
  | JNum int
  | JStr string
  | JObj "(string \<times> jsval) list"

text \<open>\<^verbatim>\<open>interface SDKRequest { type: string; requestId: string; payload?: any }\<close>\<close>

record SDKRequest =
  req_type :: string
  req_requestId :: string
  req_payload :: jsval

text \<open>
  \<^verbatim>\<open>interface SDKResponse { type: 'response' | 'error'; requestId: string; result?: any; error?: string }\<close>

  The handler casts \<^verbatim>\<open>event.data as SDKResponse\<close> without a run-time check, so
  \<open>type\<close> and \<open>requestId\<close> range over every value (a missing field reads as
  \<open>JUndefined\<close>). The \<open>error\<close> field is kept at its declared type: absent or a
  string.
\<close>

record SDKResponse =
  resp_type :: jsval
  resp_requestId :: jsval
  resp_result :: jsval
  resp_error :: "string option"

text \<open>What is handed to \<^verbatim>\<open>window.parent.postMessage\<close>: either the readiness
  announcement \<^verbatim>\<open>{ type: 'app:ready', payload: null }\<close> or a request.\<close>

datatype message = AppReady | Request SDKRequest

datatype js_exn = TypeError | SecurityError

text \<open>\<^verbatim>\<open>new Error(message)\<close>, identified with its message.\<close>

datatype js_error = Error string

datatype promise_state = Pending | Fulfilled jsval | Rejected js_error

section \<open>The browsing context\<close>

text \<open>
  A window is identified by a number. \<open>ancestors\<close> lists the proper ancestors of the
  current context, nearest first; it is empty for a top-level context. From it the
  platform derives \<^verbatim>\<open>window.self\<close>, \<^verbatim>\<open>window.parent\<close> and
  \<^verbatim>\<open>window.top\<close>. \<open>referrer_origin\<close> is what
  \<^verbatim>\<open>new URL(document.referrer).origin\<close> evaluates to, and
  \<open>parent_location_origin\<close> what reading \<^verbatim>\<open>window.parent.location.origin\<close>
  evaluates to (an exception when the parent is cross-origin).
\<close>

record browser =
  window_id :: nat
  ancestors :: "nat list"
  document_referrer :: string
  referrer_origin :: "js_exn + string"
  parent_location_origin :: "js_exn + string"

definition window_self :: "browser \<Rightarrow> nat" where
  "window_self b = window_id b"

definition window_parent :: "browser \<Rightarrow> nat" where
  "window_parent b = (case ancestors b of [] \<Rightarrow> window_id b | p # _ \<Rightarrow> p)"

definition window_top :: "browser \<Rightarrow> nat" where
  "window_top b = (case ancestors b of [] \<Rightarrow> window_id b | p # ps \<Rightarrow> last (p # ps))"

section \<open>Embedding detection (ui-utils/detection.ts)\<close>

definition ALLOWED_ORIGINS :: "string list" where
  "ALLOWED_ORIGINS =
     [''http://localhost:5173'',
      ''https://sandbox.wallet.frontiertower.io'',
      ''https://alpha.wallet.frontiertower.io'',
      ''https://beta.wallet.frontiertower.io'',
      ''https://wallet.frontiertower.io'']"

text \<open>
  The variant that checks origins. \<open>try_block\<close> is the body of the \<^verbatim>\<open>try\<close>:
  \<open>Inr (Some v)\<close> is \<^verbatim>\<open>return v\<close>, \<open>Inr None\<close> is falling out of the block,
  \<open>Inl x\<close> is a throw, which enters \<open>catch_block\<close>.
\<close>

definition try_block :: "browser \<Rightarrow> js_exn + bool option" where
  "try_block b =
     (case (if document_referrer b \<noteq> [] then map_sum id Some (referrer_origin b) else Inr None) of
        Inl x \<Rightarrow> Inl x
      | Inr parentOrigin \<Rightarrow>
          (if (case parentOrigin of None \<Rightarrow> False | Some po \<Rightarrow> po \<noteq> [] \<and> po \<in> set ALLOWED_ORIGINS)
           then Inr (Some True)
           else (case parent_location_origin b of
                   Inl x \<Rightarrow> Inl x
                 | Inr lo \<Rightarrow> if lo \<noteq> [] \<and> lo \<in> set ALLOWED_ORIGINS then Inr (Some True) else Inr None)))"

definition catch_block :: "browser \<Rightarrow> js_exn + bool option" where
  "catch_block b =
     (if document_referrer b \<noteq> []
      then (case referrer_origin b of
              Inl x \<Rightarrow> Inl x
            | Inr referrerOrigin \<Rightarrow> Inr (Some (referrerOrigin \<in> set ALLOWED_ORIGINS)))
      else Inr None)"

definition isInFrontierApp_origin :: "browser \<Rightarrow> js_exn + bool" where
  "isInFrontierApp_origin b =
     (if window_parent b = window_self b then Inr False
      else (case try_block b of
              Inr (Some v) \<Rightarrow> Inr v
            | Inr None \<Rightarrow> Inr False
            | Inl _ \<Rightarrow>
                (case catch_block b of
                   Inl x \<Rightarrow> Inl x
                 | Inr (Some v) \<Rightarrow> Inr v
                 | Inr None \<Rightarrow> Inr False)))"

text \<open>The variant that only checks for a frame: \<^verbatim>\<open>return window.self !== window.top\<close>.\<close>

definition isInFrontierApp_iframe :: "browser \<Rightarrow> bool" where
  "isInFrontierApp_iframe b = (window_self b \<noteq> window_top b)"

section \<open>The correlation engine (sdk.ts)\<close>

text \<open>
  A timer armed by \<^verbatim>\<open>setTimeout\<close>: when it fires, and the two variables its
  callback closes over (the request identifier and the promise whose \<open>reject\<close> it
  calls).
\<close>

record timer =
  fire_at :: nat
  timer_requestId :: string
  timer_reject :: nat

text \<open>
  The engine instance together with the part of the page it touches. A promise is named
  by its index in \<open>promises\<close>; the pair \<^verbatim>\<open>{ resolve, reject }\<close> stored in
  \<open>pendingRequests\<close> is that index. \<open>listening\<close> says whether \<open>handleMessage\<close> is
  registered for \<^verbatim>\<open>'message'\<close> events, \<open>posted\<close> logs every
  \<^verbatim>\<open>postMessage(data, targetOrigin)\<close> on the parent, \<open>clock\<close> is the time in
  milliseconds, read by \<^verbatim>\<open>Date.now()\<close> and by the timers alike. The counter
  \<open>requestId\<close> and the clock are JavaScript numbers holding integers; they are
  modelled as natural numbers, which is exact below \<open>2^53\<close>.
\<close>

record world =
  browser :: browser
  clock :: nat
  requestId :: nat
  pendingRequests :: "string \<rightharpoonup> nat"
  listening :: bool
  promises :: "promise_state list"
  timers :: "timer list"
  posted :: "(message \<times> string) list"

text \<open>The resolving functions of a promise act only while it is pending.\<close>

definition settle :: "nat \<Rightarrow> promise_state \<Rightarrow> promise_state list \<Rightarrow> promise_state list" where
  "settle p outcome ps = (if p < length ps \<and> ps ! p = Pending then ps[p := outcome] else ps)"

definition resolve :: "nat \<Rightarrow> jsval \<Rightarrow> promise_state list \<Rightarrow> promise_state list" where
  "resolve p v = settle p (Fulfilled v)"

definition reject :: "nat \<Rightarrow> js_error \<Rightarrow> promise_state list \<Rightarrow> promise_state list" where
  "reject p e = settle p (Rejected e)"

text \<open>\<^verbatim>\<open>new Error(x)\<close> for an optional string: no argument leaves the message empty.\<close>

definition new_Error :: "string option \<Rightarrow> js_error" where
  "new_Error m = (case m of None \<Rightarrow> Error [] | Some txt \<Rightarrow> Error txt)"

text \<open>Decimal rendering of a non-negative integer, as a template literal prints it.\<close>

definition digit_char :: "nat \<Rightarrow> char" where
  "digit_char d = ''0123456789'' ! d"

fun string_of_nat :: "nat \<Rightarrow> string" where
  "string_of_nat n =
     (if n < 10 then [digit_char n] else string_of_nat (n div 10) @ [digit_char (n mod 10)])"

declare string_of_nat.simps [simp del]

text \<open>\<^verbatim>\<open>`${Date.now()}-${this.requestId++}`\<close>\<close>

definition mk_requestId :: "nat \<Rightarrow> nat \<Rightarrow> string" where
  "mk_requestId now n = string_of_nat now @ ''-'' @ string_of_nat n"

text \<open>\<^verbatim>\<open>Map.prototype.get\<close> on a table whose keys are all strings.\<close>

definition Map_get :: "(string \<rightharpoonup> nat) \<Rightarrow> jsval \<Rightarrow> nat option" where
  "Map_get m k = (case k of JStr r \<Rightarrow> m r | _ \<Rightarrow> None)"

definition Map_delete :: "(string \<rightharpoonup> nat) \<Rightarrow> jsval \<Rightarrow> (string \<rightharpoonup> nat)" where
  "Map_delete m k = (case k of JStr r \<Rightarrow> m(r := None) | _ \<Rightarrow> m)"

text \<open>
  A \<^verbatim>\<open>MessageEvent\<close>: \<open>source\<close> is the sending window (or null), \<open>origin\<close> the
  sender's origin, \<open>data\<close> the payload; \<open>None\<close> stands for null or undefined data,
  on which a property read throws. Data that is another primitive value reads like an
  object without any of the four fields.
\<close>

record MessageEvent =
  source :: "nat option"
  origin :: string
  data :: "SDKResponse option"

definition handleMessage :: "MessageEvent \<Rightarrow> world \<Rightarrow> js_exn + world" where
  "handleMessage event s =
     (if source event \<noteq> Some (window_parent (browser s)) then Inr s
      else (case data event of
              None \<Rightarrow> Inl TypeError
            | Some response \<Rightarrow>
                (case Map_get (pendingRequests s) (resp_requestId response) of
                   None \<Rightarrow> Inr s
                 | Some pending \<Rightarrow>
                     Inr (s\<lparr>promises :=
                              (if resp_type response = JStr ''error''
                               then reject pending (new_Error (resp_error response)) (promises s)
                               else resolve pending (resp_result response) (promises s)),
                            pendingRequests :=
                              Map_delete (pendingRequests s) (resp_requestId response)\<rparr>))))"

text \<open>
  \<open>request\<close> returns the new promise and the state after the executor has run: the
  identifier is generated, the pending entry stored, the request posted with target
  \<^verbatim>\<open>'*'\<close>, and the 30000 ms timer armed.
\<close>

definition request :: "string \<Rightarrow> jsval \<Rightarrow> world \<Rightarrow> nat \<times> world" where
  "request ty payload s =
     (let p = length (promises s);
          rid = mk_requestId (clock s) (requestId s)
      in (p, s\<lparr>promises := promises s @ [Pending],
                requestId := requestId s + 1,
                pendingRequests := (pendingRequests s)(rid \<mapsto> p),
                posted := posted s @
                  [(Request \<lparr>req_type = ty, req_requestId = rid, req_payload = payload\<rparr>, ''*'')],
                timers := timers s @
                  [\<lparr>fire_at = clock s + 30000, timer_requestId = rid, timer_reject = p\<rparr>]\<rparr>))"

text \<open>The timer callback of \<open>request\<close>.\<close>

definition timeout_callback :: "timer \<Rightarrow> world \<Rightarrow> world" where
  "timeout_callback t s =
     (if pendingRequests s (timer_requestId t) \<noteq> None
      then s\<lparr>pendingRequests := (pendingRequests s)(timer_requestId t := None),
             promises := reject (timer_reject t) (Error ''Request timeout'') (promises s)\<rparr>
      else s)"

definition notifyReady :: "world \<Rightarrow> world" where
  "notifyReady s = s\<lparr>posted := posted s @ [(AppReady, ''*'')]\<rparr>"

text \<open>The constructor, in a page \<open>b\<close> at time \<open>now\<close>.\<close>

definition new_FrontierSDK :: "browser \<Rightarrow> nat \<Rightarrow> world" where
  "new_FrontierSDK b now =
     notifyReady \<lparr>browser = b, clock = now, requestId = 0, pendingRequests = Map.empty,
                  listening = True, promises = [], timers = [], posted = []\<rparr>"

definition destroy :: "world \<Rightarrow> world" where
  "destroy s = s\<lparr>listening := False, pendingRequests := Map.empty\<rparr>"

subsection \<open>The event loop\<close>

text \<open>
  The page dispatches a message event to \<open>handleMessage\<close> while it is registered; an
  exception thrown by a listener is reported and leaves the state as it was.
\<close>

definition dispatch :: "MessageEvent \<Rightarrow> world \<Rightarrow> world" where
  "dispatch event s =
     (if listening s
      then (case handleMessage event s of Inl _ \<Rightarrow> s | Inr s' \<Rightarrow> s')
      else s)"

text \<open>
  Time passes by \<open>d\<close> milliseconds: every timer whose deadline has been reached fires,
  in the order the timers were armed (all delays are equal, so this is deadline order),
  and is discarded.
\<close>

definition elapse :: "nat \<Rightarrow> world \<Rightarrow> world" where
  "elapse d s =
     (let now = clock s + d
      in fold timeout_callback
           (filter (\<lambda>t. fire_at t \<le> now) (timers s))
           (s\<lparr>clock := now, timers := filter (\<lambda>t. \<not> fire_at t \<le> now) (timers s)\<rparr>))"

datatype action =
    Call string jsval
  | Deliver MessageEvent
  | Elapse nat
  | Destroy

fun step :: "action \<Rightarrow> world \<Rightarrow> world" where
  "step (Call ty payload) s = snd (request ty payload s)"
| "step (Deliver event) s = dispatch event s"
| "step (Elapse d) s = elapse d s"
| "step Destroy s = destroy s"

definition run :: "action list \<Rightarrow> world \<Rightarrow> world" where
  "run acts s = fold step acts s"

text \<open>The identifiers of all requests sent so far, oldest first.\<close>

fun issued_ids :: "(message \<times> string) list \<Rightarrow> string list" where
  "issued_ids [] = []"
| "issued_ids ((AppReady, _) # ms) = issued_ids ms"
| "issued_ids ((Request r, _) # ms) = req_requestId r # issued_ids ms"

fun is_Call :: "action \<Rightarrow> bool" where
  "is_Call (Call _ _) = True"
| "is_Call _ = False"

section \<open>Runs in which a call is left unanswered\<close>

text \<open>The event is a message from the parent that bears the identifier \<open>rid\<close>.\<close>

definition answers :: "browser \<Rightarrow> string \<Rightarrow> MessageEvent \<Rightarrow> bool" where
  "answers b rid ev \<longleftrightarrow>
     source ev = Some (window_parent b) \<and>
     (case data ev of None \<Rightarrow> False | Some r \<Rightarrow> resp_requestId r = JStr rid)"

text \<open>An action that neither answers the call \<open>rid\<close> nor tears the engine down.\<close>

fun quiet :: "browser \<Rightarrow> string \<Rightarrow> action \<Rightarrow> bool" where
  "quiet b rid (Call ty payload) = True"
| "quiet b rid (Deliver ev) = (\<not> answers b rid ev)"
| "quiet b rid (Elapse d) = True"
| "quiet b rid Destroy = False"

text \<open>The time that passes during a run.\<close>

fun elapsed :: "action list \<Rightarrow> nat" where
  "elapsed [] = 0"
| "elapsed (Elapse d # acts) = d + elapsed acts"
| "elapsed (a # acts) = elapsed acts"

section \<open>Invariants of the engine\<close>

text \<open>An identifier has been issued when its counter part is below the current counter.\<close>

definition issued :: "world \<Rightarrow> string \<Rightarrow> bool" where
  "issued s rid \<longleftrightarrow> (\<exists>t n. n < requestId s \<and> rid = mk_requestId t n)"

text \<open>Every tracked call points to a promise that is still pending, and no promise is
  tracked under two identifiers.\<close>

definition pend_ok :: "world \<Rightarrow> bool" where
  "pend_ok s \<longleftrightarrow>
     (\<forall>rid p. pendingRequests s rid = Some p \<longrightarrow>
        p < length (promises s) \<and> promises s ! p = Pending \<and> issued s rid) \<and>
     (\<forall>rid rid' p. pendingRequests s rid = Some p \<and> pendingRequests s rid' = Some p \<longrightarrow> rid = rid')"

text \<open>A timer closes over an issued identifier and over the promise of that very call.\<close>

definition timer_ok :: "world \<Rightarrow> timer \<Rightarrow> bool" where
  "timer_ok s t \<longleftrightarrow>
     issued s (timer_requestId t) \<and> timer_reject t < length (promises s) \<and>
     (\<forall>rid. pendingRequests s rid = Some (timer_reject t) \<longrightarrow> rid = timer_requestId t)"

definition engine_inv :: "world \<Rightarrow> bool" where
  "engine_inv s \<longleftrightarrow> pend_ok s \<and> (\<forall>t \<in> set (timers s). timer_ok s t \<and> clock s < fire_at t)"

text \<open>A promise that no tracked call points to, and a timer that can no longer reach it.\<close>

definition frozen :: "world \<Rightarrow> nat \<Rightarrow> bool" where
  "frozen s p \<longleftrightarrow>
     p < length (promises s) \<and> promises s ! p = Pending \<and>
     (\<forall>rid. pendingRequests s rid \<noteq> Some p)"

definition stale_timer :: "world \<Rightarrow> nat \<Rightarrow> timer \<Rightarrow> bool" where
  "stale_timer s p t \<longleftrightarrow>
     (timer_reject t = p \<longrightarrow>
        issued s (timer_requestId t) \<and> pendingRequests s (timer_requestId t) = None)"

text \<open>The call \<open>rid\<close> is tracked, its promise \<open>p\<close> pending.\<close>

definition wcore :: "world \<Rightarrow> string \<Rightarrow> nat \<Rightarrow> bool" where
  "wcore s rid p \<longleftrightarrow>
     pendingRequests s rid = Some p \<and> p < length (promises s) \<and> promises s ! p = Pending \<and>
     issued s rid"

text \<open>Moreover its timer is armed for the deadline \<open>d\<close>, which has not been reached.\<close>

definition waiting :: "world \<Rightarrow> string \<Rightarrow> nat \<Rightarrow> nat \<Rightarrow> bool" where
  "waiting s rid p d \<longleftrightarrow>
     wcore s rid p \<and> clock s < d \<and>
     (\<exists>t \<in> set (timers s). timer_requestId t = rid) \<and>
     (\<forall>t \<in> set (timers s). timer_requestId t = rid \<longrightarrow> timer_reject t = p \<and> fire_at t = d)"

definition timedout :: "world \<Rightarrow> string \<Rightarrow> nat \<Rightarrow> bool" where
  "timedout s rid p \<longleftrightarrow>
     p < length (promises s) \<and> promises s ! p = Rejected (Error ''Request timeout'') \<and>
     pendingRequests s rid = None \<and> issued s rid"

section \<open>Example scenarios\<close>

text \<open>A mini-app (window 1) framed by the production wallet (window 0), cross-origin.\<close>

definition wallet_page :: browser where
  "wallet_page =
     \<lparr>window_id = 1, ancestors = [0],
      document_referrer = ''https://wallet.frontiertower.io/apps/test'',
      referrer_origin = Inr ''https://wallet.frontiertower.io'',
      parent_location_origin = Inl SecurityError\<rparr>"

text \<open>The same mini-app framed by a page of another origin, outside \<open>ALLOWED_ORIGINS\<close>.\<close>

definition evil_page :: browser where
  "evil_page =
     \<lparr>window_id = 1, ancestors = [0],
      document_referrer = ''https://evil.example/'',
      referrer_origin = Inr ''https://evil.example'',
      parent_location_origin = Inl SecurityError\<rparr>"

text \<open>
  A development set-up: the mini-app and the page that frames it are both served from
  \<^verbatim>\<open>http://localhost:5173\<close>, so the parent's location is readable, while the frame was
  navigated from a document of another origin.
\<close>

definition dev_page :: browser where
  "dev_page =
     \<lparr>window_id = 1, ancestors = [0],
      document_referrer = ''https://evil.example/'',
      referrer_origin = Inr ''https://evil.example'',
      parent_location_origin = Inr ''http://localhost:5173''\<rparr>"

text \<open>The mini-app (window 2) in a frame (window 1) of a page framed by the wallet (window 0).\<close>

definition nested_page :: browser where
  "nested_page =
     \<lparr>window_id = 2, ancestors = [1, 0],
      document_referrer = ''https://wallet.frontiertower.io/apps/test'',
      referrer_origin = Inr ''https://wallet.frontiertower.io'',
      parent_location_origin = Inl SecurityError\<rparr>"

text \<open>The engine after one call \<^verbatim>\<open>request('storage:get', { key: 'k' })\<close> at time 1000.\<close>

definition one_call :: world where
  "one_call = run [Call ''storage:get'' (JObj [(''key'', JStr ''k'')])] (new_FrontierSDK wallet_page 1000)"

definition one_call_evil :: world where
  "one_call_evil = run [Call ''storage:get'' (JObj [(''key'', JStr ''k'')])] (new_FrontierSDK evil_page 1000)"

text \<open>A call that is torn down before anything answers it, and 30 seconds later.\<close>

definition abandoned_call :: world where
  "abandoned_call =
     run [Call ''wallet:getBalance'' JUndefined, Destroy, Elapse 30000]
       (new_FrontierSDK wallet_page 1000)"

definition response_v :: SDKResponse where
  "response_v = \<lparr>resp_type = JStr ''response'', resp_requestId = JStr ''1000-0'',
                  resp_result = JStr ''v'', resp_error = None\<rparr>"

definition error_denied :: SDKResponse where
  "error_denied = \<lparr>resp_type = JStr ''error'', resp_requestId = JStr ''1000-0'',
                    resp_result = JUndefined, resp_error = Some ''denied''\<rparr>"

text \<open>A reply with neither a kind nor a result field.\<close>

definition bare_reply :: SDKResponse where
  "bare_reply = \<lparr>resp_type = JUndefined, resp_requestId = JStr ''1000-0'',
                  resp_result = JUndefined, resp_error = None\<rparr>"

definition from_parent :: "SDKResponse \<Rightarrow> MessageEvent" where
  "from_parent r = \<lparr>source = Some 0, origin = ''https://wallet.frontiertower.io'', data = Some r\<rparr>"

text \<open>A reply that the parent of \<open>evil_page\<close> (window 0) sends to the pending call.\<close>

definition evil_reply :: MessageEvent where
  "evil_reply = \<lparr>source = Some 0, origin = ''https://evil.example'', data = Some response_v\<rparr>"

text \<open>A reply to the pending call sent by a window that is not the parent.\<close>

definition sibling_reply :: MessageEvent where
  "sibling_reply = \<lparr>source = Some 7, origin = ''https://wallet.frontiertower.io'', data = Some response_v\<rparr>"

text \<open>A call that only a stranger answers while 30 seconds pass.\<close>

definition unanswered_call :: world where
  "unanswered_call =
     run [Deliver sibling_reply, Elapse 29999, Elapse 1]
       (snd (request ''wallet:getBalance'' JUndefined (run [] (new_FrontierSDK wallet_page 1000))))"

text \<open>A page opened on its own: no ancestor, no referrer.\<close>

definition standalone_page :: browser where
  "standalone_page =
     \<lparr>window_id = 0, ancestors = [],
      document_referrer = [],
      referrer_origin = Inl TypeError,
      parent_location_origin = Inr ''https://miniapp.example''\<rparr>"

text \<open>Two calls issued in the same millisecond.\<close>

definition burst :: world where
  "burst = run [Call ''wallet:getBalance'' JUndefined, Call ''wallet:getAddress'' JUndefined]
             (new_FrontierSDK wallet_page 1000)"

text \<open>The nested mini-app again, this time below a page of an origin outside the allow-list.\<close>

definition nested_evil_page :: browser where
  "nested_evil_page =
     \<lparr>window_id = 2, ancestors = [1, 0],
      document_referrer = ''https://evil.example/'',
      referrer_origin = Inr ''https://evil.example'',
      parent_location_origin = Inl SecurityError\<rparr>"

section \<open>Identifiers\<close>

lemma digit_char_not_dash: "d < 10 \<Longrightarrow> digit_char d \<noteq> CHR ''-''"
proof -
  assume "d < 10"
  then have "d \<in> {0,1,2,3,4,5,6,7,8,9}" by auto
  then show ?thesis by (auto simp: digit_char_def)
qed

lemma digit_char_inj: "a < 10 \<Longrightarrow> b < 10 \<Longrightarrow> digit_char a = digit_char b \<Longrightarrow> a = b"
proof -
  assume "a < 10" "b < 10" and eq: "digit_char a = digit_char b"
  then have "a \<in> {0,1,2,3,4,5,6,7,8,9}" "b \<in> {0,1,2,3,4,5,6,7,8,9}" by auto
  with eq show ?thesis by (auto simp: digit_char_def)
qed

lemma string_of_nat_no_dash: "CHR ''-'' \<notin> set (string_of_nat n)"
proof (induction n rule: string_of_nat.induct)
  case (1 n)
  show ?case
  proof (cases "n < 10")
    case True
    then show ?thesis
      using digit_char_not_dash [of n] by (subst string_of_nat.simps) auto
  next
    case False
    then show ?thesis
      using 1 digit_char_not_dash [of "n mod 10"] by (subst string_of_nat.simps) auto
  qed
qed

lemma string_of_nat_nonempty: "string_of_nat n \<noteq> []"
  by (subst string_of_nat.simps) simp

lemma string_of_nat_inj: "string_of_nat a = string_of_nat b \<Longrightarrow> a = b"
proof (induction a arbitrary: b rule: string_of_nat.induct)
  case (1 n)
  show ?case
  proof (cases "n < 10")
    case small: True
    show ?thesis
    proof (cases "b < 10")
      case True
      with small 1(2) show ?thesis
        by (simp add: string_of_nat.simps [of n] string_of_nat.simps [of b] digit_char_inj)
    next
      case False
      with small 1(2) string_of_nat_nonempty [of "b div 10"] show ?thesis
        by (simp add: string_of_nat.simps [of n] string_of_nat.simps [of b])
    qed
  next
    case big: False
    show ?thesis
    proof (cases "b < 10")
      case True
      with big 1(2) string_of_nat_nonempty [of "n div 10"] show ?thesis
        by (simp add: string_of_nat.simps [of n] string_of_nat.simps [of b])
    next
      case False
      with big 1(2) have q: "string_of_nat (n div 10) = string_of_nat (b div 10)"
        and r: "digit_char (n mod 10) = digit_char (b mod 10)"
        by (simp_all add: string_of_nat.simps [of n] string_of_nat.simps [of b])
      from 1(1) [OF big q] have "n div 10 = b div 10" .
      moreover from r have "n mod 10 = b mod 10"
        by (intro digit_char_inj) simp_all
      ultimately show ?thesis
        by (metis div_mult_mod_eq)
    qed
  qed
qed

lemma suffix_after_sep:
  assumes "xs @ a # ys = xs' @ a # ys'" and "a \<notin> set ys" and "a \<notin> set ys'"
  shows "ys = ys'"
proof -
  have "takeWhile (\<lambda>c. c \<noteq> a) (rev (xs @ a # ys)) = rev ys"
    using assms(2) by (auto simp: takeWhile_tail)
  moreover have "takeWhile (\<lambda>c. c \<noteq> a) (rev (xs' @ a # ys')) = rev ys'"
    using assms(3) by (auto simp: takeWhile_tail)
  ultimately show ?thesis using assms(1) by (metis rev_is_rev_conv)
qed

lemma mk_requestId_counter:
  "mk_requestId t n = mk_requestId t' n' \<Longrightarrow> n = n'"
  unfolding mk_requestId_def
  using suffix_after_sep [of "string_of_nat t" "CHR ''-''" "string_of_nat n" "string_of_nat t'" "string_of_nat n'"]
  by (simp add: string_of_nat_no_dash string_of_nat_inj)

lemma mk_requestId_1000_0: "mk_requestId 1000 0 = ''1000-0''"
  by (simp add: mk_requestId_def string_of_nat.simps digit_char_def)

section \<open>Basic facts about the operations\<close>

lemma settle_length [simp]: "length (settle p v ps) = length ps"
  by (simp add: settle_def)

lemma settle_other: "q \<noteq> p \<Longrightarrow> settle p v ps ! q = ps ! q"
  by (simp add: settle_def)

lemma settle_settled: "ps ! q \<noteq> Pending \<Longrightarrow> settle p v ps ! q = ps ! q"
  by (cases "q = p") (auto simp: settle_def)

lemma settle_pending: "p < length ps \<Longrightarrow> ps ! p = Pending \<Longrightarrow> settle p v ps ! p = v"
  by (simp add: settle_def)

lemma request_simps [simp]:
  "fst (request ty pl s) = length (promises s)"
  "promises (snd (request ty pl s)) = promises s @ [Pending]"
  "requestId (snd (request ty pl s)) = requestId s + 1"
  "pendingRequests (snd (request ty pl s)) =
     (pendingRequests s)(mk_requestId (clock s) (requestId s) \<mapsto> length (promises s))"
  "posted (snd (request ty pl s)) = posted s @
     [(Request \<lparr>req_type = ty, req_requestId = mk_requestId (clock s) (requestId s),
                req_payload = pl\<rparr>, ''*'')]"
  "timers (snd (request ty pl s)) = timers s @
     [\<lparr>fire_at = clock s + 30000, timer_requestId = mk_requestId (clock s) (requestId s),
       timer_reject = length (promises s)\<rparr>]"
  "clock (snd (request ty pl s)) = clock s"
  "listening (snd (request ty pl s)) = listening s"
  "browser (snd (request ty pl s)) = browser s"
  by (simp_all add: request_def Let_def)

lemma timeout_callback_simps [simp]:
  "requestId (timeout_callback t s) = requestId s"
  "clock (timeout_callback t s) = clock s"
  "timers (timeout_callback t s) = timers s"
  "listening (timeout_callback t s) = listening s"
  "browser (timeout_callback t s) = browser s"
  "posted (timeout_callback t s) = posted s"
  "length (promises (timeout_callback t s)) = length (promises s)"
  by (simp_all add: timeout_callback_def reject_def)

lemma fold_timeout_callback_simps [simp]:
  "requestId (fold timeout_callback ts s) = requestId s"
  "clock (fold timeout_callback ts s) = clock s"
  "timers (fold timeout_callback ts s) = timers s"
  "listening (fold timeout_callback ts s) = listening s"
  "browser (fold timeout_callback ts s) = browser s"
  "posted (fold timeout_callback ts s) = posted s"
  "length (promises (fold timeout_callback ts s)) = length (promises s)"
  by (induction ts arbitrary: s; simp)+

lemma elapse_simps [simp]:
  "requestId (elapse d s) = requestId s"
  "clock (elapse d s) = clock s + d"
  "timers (elapse d s) = filter (\<lambda>t. \<not> fire_at t \<le> clock s + d) (timers s)"
  "listening (elapse d s) = listening s"
  "browser (elapse d s) = browser s"
  "posted (elapse d s) = posted s"
  "length (promises (elapse d s)) = length (promises s)"
  by (simp_all add: elapse_def Let_def)

lemma destroy_simps [simp]:
  "requestId (destroy s) = requestId s"
  "clock (destroy s) = clock s"
  "timers (destroy s) = timers s"
  "listening (destroy s) = False"
  "browser (destroy s) = browser s"
  "posted (destroy s) = posted s"
  "promises (destroy s) = promises s"
  "pendingRequests (destroy s) = Map.empty"
  by (simp_all add: destroy_def)

text \<open>The handler either leaves the state alone or settles one tracked promise.\<close>

lemma handleMessage_cases:
  assumes "handleMessage ev s = Inr s'"
  shows "s' = s \<or>
         (\<exists>rid p v. source ev = Some (window_parent (browser s)) \<and>
            pendingRequests s rid = Some p \<and>
            s' = s\<lparr>promises := settle p v (promises s),
                   pendingRequests := (pendingRequests s)(rid := None)\<rparr>)"
  using assms
  by (auto simp: handleMessage_def Map_get_def Map_delete_def resolve_def reject_def
           split: if_splits option.splits jsval.splits)

lemma dispatch_cases:
  "dispatch ev s = s \<or>
   (\<exists>rid p v. listening s \<and> source ev = Some (window_parent (browser s)) \<and>
      pendingRequests s rid = Some p \<and>
      dispatch ev s = s\<lparr>promises := settle p v (promises s),
                         pendingRequests := (pendingRequests s)(rid := None)\<rparr>)"
proof (cases "listening s")
  case False
  then show ?thesis by (simp add: dispatch_def)
next
  case True
  show ?thesis
  proof (cases "handleMessage ev s")
    case (Inl x)
    with True show ?thesis by (simp add: dispatch_def)
  next
    case (Inr s')
    with True have "dispatch ev s = s'" by (simp add: dispatch_def)
    with handleMessage_cases [OF Inr] True show ?thesis by auto
  qed
qed

lemma dispatch_simps [simp]:
  "requestId (dispatch ev s) = requestId s"
  "clock (dispatch ev s) = clock s"
  "timers (dispatch ev s) = timers s"
  "listening (dispatch ev s) = listening s"
  "browser (dispatch ev s) = browser s"
  "posted (dispatch ev s) = posted s"
  "length (promises (dispatch ev s)) = length (promises s)"
  using dispatch_cases [of ev s] by auto

lemma browser_new [simp]: "browser (new_FrontierSDK b now) = b"
  by (simp add: new_FrontierSDK_def notifyReady_def)

lemma step_browser [simp]: "browser (step a s) = browser s"
  by (cases a) simp_all

lemma run_browser [simp]: "browser (run acts s) = browser s"
  unfolding run_def by (induction acts arbitrary: s) simp_all

lemma run_Nil [simp]: "run [] s = s"
  by (simp add: run_def)

lemma run_Cons [simp]: "run (a # acts) s = run acts (step a s)"
  by (simp add: run_def)

lemma run_append [simp]: "run (acts @ acts') s = run acts' (run acts s)"
  by (simp add: run_def)

section \<open>The invariant holds in every reachable state\<close>

lemma issued_mono: "issued s rid \<Longrightarrow> requestId s \<le> requestId s' \<Longrightarrow> issued s' rid"
  unfolding issued_def using less_le_trans by blast

lemma fresh_not_issued: "issued s rid \<Longrightarrow> rid \<noteq> mk_requestId t (requestId s)"
  unfolding issued_def using mk_requestId_counter by blast

lemma issued_fresh: "requestId s < requestId s' \<Longrightarrow> issued s' (mk_requestId t (requestId s))"
  unfolding issued_def by blast

lemma pend_ok_new: "pend_ok (new_FrontierSDK b now)"
  by (simp add: pend_ok_def new_FrontierSDK_def notifyReady_def)

lemma inv_new: "engine_inv (new_FrontierSDK b now)"
  by (simp add: engine_inv_def pend_ok_new) (simp add: new_FrontierSDK_def notifyReady_def)

lemma pend_ok_request:
  assumes "pend_ok s"
  shows "pend_ok (snd (request ty pl s))"
proof -
  let ?s' = "snd (request ty pl s)"
  let ?rid = "mk_requestId (clock s) (requestId s)"
  have old: "pendingRequests s r = Some p \<Longrightarrow>
               p < length (promises s) \<and> promises s ! p = Pending \<and> issued s r" for r p
    using assms by (simp add: pend_ok_def)
  have inj: "pendingRequests s r = Some p \<Longrightarrow> pendingRequests s r' = Some p \<Longrightarrow> r = r'" for r r' p
    using assms unfolding pend_ok_def by blast
  have a: "p < length (promises ?s') \<and> promises ?s' ! p = Pending \<and> issued ?s' r"
    if "pendingRequests ?s' r = Some p" for r p
  proof (cases "r = ?rid")
    case True
    with that have "p = length (promises s)" by simp
    with True show ?thesis by (simp add: issued_fresh)
  next
    case False
    with that have "pendingRequests s r = Some p" by simp
    from old [OF this] show ?thesis
      by (simp add: nth_append issued_mono [of s r ?s'])
  qed
  have b: "r = r'"
    if "pendingRequests ?s' r = Some p" "pendingRequests ?s' r' = Some p" for r r' p
  proof (cases "r = ?rid"; cases "r' = ?rid")
    assume "r \<noteq> ?rid" "r' \<noteq> ?rid"
    with that inj show ?thesis by simp
  next
    assume "r = ?rid" "r' \<noteq> ?rid"
    with that have "p = length (promises s)" "pendingRequests s r' = Some p" by simp_all
    with old [of r' p] show ?thesis by simp
  next
    assume "r \<noteq> ?rid" "r' = ?rid"
    with that have "p = length (promises s)" "pendingRequests s r = Some p" by simp_all
    with old [of r p] show ?thesis by simp
  qed simp
  show ?thesis unfolding pend_ok_def using a b by blast
qed

lemma timer_ok_request:
  assumes "pend_ok s" "timer_ok s t"
  shows "timer_ok (snd (request ty pl s)) t"
proof -
  have "timer_reject t < length (promises s)" using assms(2) by (simp add: timer_ok_def)
  then show ?thesis
    using assms(2) unfolding timer_ok_def
    by (auto simp: issued_mono [of s _ "snd (request ty pl s)"] split: if_splits)
qed

lemma timer_ok_request_new:
  assumes "pend_ok s"
  shows "timer_ok (snd (request ty pl s))
           \<lparr>fire_at = d, timer_requestId = mk_requestId (clock s) (requestId s),
            timer_reject = length (promises s)\<rparr>"
proof -
  have "pendingRequests s r \<noteq> Some (length (promises s))" for r
    using assms unfolding pend_ok_def by (metis less_irrefl)
  then show ?thesis
    unfolding timer_ok_def by (auto simp: issued_fresh split: if_splits)
qed

lemma inv_request: "engine_inv s \<Longrightarrow> engine_inv (snd (request ty pl s))"
  unfolding engine_inv_def
  using pend_ok_request [of s ty pl] timer_ok_request [of s _ ty pl]
    timer_ok_request_new [of s ty pl]
  by auto

text \<open>Settling the promise of one tracked call and forgetting the call.\<close>

lemma pend_ok_settle:
  assumes "pend_ok s" "pendingRequests s rid = Some p"
  shows "pend_ok (s\<lparr>promises := settle p v (promises s),
                    pendingRequests := (pendingRequests s)(rid := None)\<rparr>)"
proof -
  have inj: "pendingRequests s r = Some q \<Longrightarrow> pendingRequests s r' = Some q \<Longrightarrow> r = r'" for r r' q
    using assms(1) unfolding pend_ok_def by blast
  have "q \<noteq> p" if "pendingRequests s r = Some q" "r \<noteq> rid" for r q
    using inj [OF that(1), of rid] that(2) assms(2) by auto
  then show ?thesis
    using assms(1) unfolding pend_ok_def issued_def
    by (auto simp: settle_other split: if_splits)
qed

lemma timer_ok_settle:
  assumes "timer_ok s t"
  shows "timer_ok (s\<lparr>promises := settle p v (promises s),
                     pendingRequests := (pendingRequests s)(rid := None)\<rparr>) t"
  using assms unfolding timer_ok_def issued_def by (auto split: if_splits)

lemma pend_ok_dispatch: "pend_ok s \<Longrightarrow> pend_ok (dispatch ev s)"
  using dispatch_cases [of ev s] pend_ok_settle by auto

lemma timer_ok_dispatch: "timer_ok s t \<Longrightarrow> timer_ok (dispatch ev s) t"
  using dispatch_cases [of ev s] timer_ok_settle by auto

lemma inv_dispatch: "engine_inv s \<Longrightarrow> engine_inv (dispatch ev s)"
  unfolding engine_inv_def using pend_ok_dispatch timer_ok_dispatch by auto

lemma timeout_callback_cases:
  "timeout_callback t s = s \<or>
   (\<exists>p. pendingRequests s (timer_requestId t) = Some p \<and>
      timeout_callback t s =
        s\<lparr>promises := settle (timer_reject t) (Rejected (Error ''Request timeout'')) (promises s),
          pendingRequests := (pendingRequests s)(timer_requestId t := None)\<rparr>)"
  by (auto simp: timeout_callback_def reject_def)

lemma pend_ok_timeout_callback:
  assumes "pend_ok s" "timer_ok s t"
  shows "pend_ok (timeout_callback t s)"
proof (cases "pendingRequests s (timer_requestId t)")
  case None
  then show ?thesis using assms(1) by (simp add: timeout_callback_def)
next
  case (Some p)
  have other: "q \<noteq> timer_reject t" if "pendingRequests s r = Some q" "r \<noteq> timer_requestId t" for r q
    using assms(2) that unfolding timer_ok_def by auto
  have "timeout_callback t s =
          s\<lparr>promises := settle (timer_reject t) (Rejected (Error ''Request timeout'')) (promises s),
            pendingRequests := (pendingRequests s)(timer_requestId t := None)\<rparr>"
    using Some by (simp add: timeout_callback_def reject_def)
  then show ?thesis
    using assms(1) other unfolding pend_ok_def issued_def
    by (auto simp: settle_other split: if_splits)
qed

lemma timer_ok_timeout_callback: "timer_ok s t' \<Longrightarrow> timer_ok (timeout_callback t s) t'"
  using timeout_callback_cases [of t s] timer_ok_settle by auto

lemma pend_ok_fold_timeout:
  "pend_ok s \<Longrightarrow> \<forall>t \<in> set ts. timer_ok s t \<Longrightarrow> pend_ok (fold timeout_callback ts s)"
proof (induction ts arbitrary: s)
  case Nil
  then show ?case by simp
next
  case (Cons t ts)
  have "pend_ok (timeout_callback t s)"
    using Cons.prems by (simp add: pend_ok_timeout_callback)
  moreover have "\<forall>u \<in> set ts. timer_ok (timeout_callback t s) u"
    using Cons.prems by (simp add: timer_ok_timeout_callback)
  ultimately show ?case using Cons.IH by simp
qed

lemma timer_ok_fold_timeout: "timer_ok s t' \<Longrightarrow> timer_ok (fold timeout_callback ts s) t'"
  by (induction ts arbitrary: s) (simp_all add: timer_ok_timeout_callback)

lemma pend_ok_clock_timers [simp]:
  "pend_ok (s\<lparr>clock := c, timers := ts\<rparr>) = pend_ok s"
  by (simp add: pend_ok_def issued_def)

lemma timer_ok_clock_timers [simp]:
  "timer_ok (s\<lparr>clock := c, timers := ts\<rparr>) t = timer_ok s t"
  by (simp add: timer_ok_def issued_def)

lemma inv_elapse:
  assumes "engine_inv s"
  shows "engine_inv (elapse d s)"
proof -
  let ?now = "clock s + d"
  let ?due = "filter (\<lambda>t. fire_at t \<le> ?now) (timers s)"
  let ?s0 = "s\<lparr>clock := ?now, timers := filter (\<lambda>t. \<not> fire_at t \<le> ?now) (timers s)\<rparr>"
  have e: "elapse d s = fold timeout_callback ?due ?s0"
    by (simp add: elapse_def Let_def)
  have p: "pend_ok ?s0" and t: "\<forall>t \<in> set (timers s). timer_ok ?s0 t"
    using assms by (simp_all add: engine_inv_def)
  have "pend_ok (elapse d s)"
    unfolding e using p t by (intro pend_ok_fold_timeout) simp_all
  moreover have "timer_ok (elapse d s) u \<and> clock (elapse d s) < fire_at u"
    if "u \<in> set (timers (elapse d s))" for u
  proof -
    from that have u: "u \<in> set (timers s)" "\<not> fire_at u \<le> ?now" by simp_all
    from u(1) t have "timer_ok (elapse d s) u"
      unfolding e by (simp add: timer_ok_fold_timeout)
    with u(2) show ?thesis by simp
  qed
  ultimately show ?thesis unfolding engine_inv_def by blast
qed

lemma inv_destroy: "engine_inv s \<Longrightarrow> engine_inv (destroy s)"
  unfolding engine_inv_def pend_ok_def timer_ok_def issued_def by simp

lemma inv_step: "engine_inv s \<Longrightarrow> engine_inv (step a s)"
  by (cases a) (simp_all add: inv_request inv_dispatch inv_elapse inv_destroy)

lemma inv_run: "engine_inv s \<Longrightarrow> engine_inv (run acts s)"
  by (induction acts arbitrary: s) (simp_all add: inv_step)

lemma inv_reachable: "engine_inv (run acts (new_FrontierSDK b now))"
  by (simp add: inv_run inv_new)

section \<open>Identifiers of issued requests\<close>

lemma issued_ids_append [simp]: "issued_ids (ms @ ms') = issued_ids ms @ issued_ids ms'"
  by (induction ms rule: issued_ids.induct) simp_all

lemma ids_issued_step:
  assumes "\<forall>rid \<in> set (issued_ids (posted s)). issued s rid"
  shows "\<forall>rid \<in> set (issued_ids (posted (step a s))). issued (step a s) rid"
proof (cases a)
  case (Call ty pl)
  then show ?thesis
    using assms by (auto simp: issued_fresh issued_mono [of s _ "snd (request ty pl s)"])
qed (use assms in \<open>auto simp: issued_def\<close>)

lemma ids_distinct_step:
  assumes "\<forall>rid \<in> set (issued_ids (posted s)). issued s rid"
    and "distinct (issued_ids (posted s))"
  shows "distinct (issued_ids (posted (step a s)))"
proof (cases a)
  case (Call ty pl)
  then show ?thesis
    using assms fresh_not_issued [of s _ "clock s"] by auto
qed (use assms in simp_all)

lemma ids_run:
  assumes "\<forall>rid \<in> set (issued_ids (posted s)). issued s rid"
    and "distinct (issued_ids (posted s))"
  shows "distinct (issued_ids (posted (run acts s))) \<and>
         (\<forall>rid \<in> set (issued_ids (posted (run acts s))). issued (run acts s) rid)"
  using assms
proof (induction acts arbitrary: s)
  case Nil
  then show ?case by simp
next
  case (Cons a acts)
  show ?case
    using Cons.IH [of "step a s"] ids_issued_step [OF Cons.prems(1)]
      ids_distinct_step [OF Cons.prems] by simp
qed

lemma ids_count_run:
  "length (issued_ids (posted (run acts s))) =
     length (issued_ids (posted s)) + length (filter is_Call acts)"
proof (induction acts arbitrary: s)
  case Nil
  then show ?case by simp
next
  case (Cons a acts)
  then show ?case by (cases a) simp_all
qed

lemma posted_new [simp]: "posted (new_FrontierSDK b now) = [(AppReady, ''*'')]"
  by (simp add: new_FrontierSDK_def notifyReady_def)

text \<open>
  C3. Whatever happens on an engine instance (calls, deliveries, time passing, teardown,
  in any order, with any number of calls in the same millisecond), the identifiers of the
  requests it has sent are pairwise distinct, and every call contributes one.
\<close>

theorem request_ids_pairwise_distinct:
  "distinct (issued_ids (posted (run acts (new_FrontierSDK b now)))) \<and>
   length (issued_ids (posted (run acts (new_FrontierSDK b now)))) = length (filter is_Call acts)"
  using ids_run [of "new_FrontierSDK b now" acts] ids_count_run [of acts "new_FrontierSDK b now"]
  by simp

theorem request_ids_pairwise_distinct_witness:
  "issued_ids (posted burst) = [''1000-0'', ''1000-1''] \<and> distinct (issued_ids (posted burst))"
proof -
  have "mk_requestId 1000 1 = ''1000-1''"
    by (simp add: mk_requestId_def string_of_nat.simps digit_char_def)
  then have "issued_ids (posted burst) = [''1000-0'', ''1000-1'']"
    by (simp add: burst_def mk_requestId_1000_0 new_FrontierSDK_def notifyReady_def)
  moreover have "distinct (issued_ids (posted burst))"
    unfolding burst_def
    using request_ids_pairwise_distinct
      [of "[Call ''wallet:getBalance'' JUndefined, Call ''wallet:getAddress'' JUndefined]"
          wallet_page 1000]
    by (rule conjunct1)
  ultimately show ?thesis by (rule conjI)
qed

text \<open>
  C9. A call appends exactly one request to what has been posted on the parent, with the
  wildcard target \<open>''*''\<close>, in every state: nothing about the page (embedded or not,
  trusted or not) is consulted. Hence every message an engine ever posts, the readiness
  announcement included, carries the wildcard target.
\<close>

theorem request_posts_with_wildcard_target:
  "posted (snd (request ty payload s)) =
     posted s @
       [(Request \<lparr>req_type = ty,
                  req_requestId = mk_requestId (clock s) (requestId s),
                  req_payload = payload\<rparr>, ''*'')] \<and>
   map snd (posted (run acts (new_FrontierSDK b now))) =
     replicate (Suc (length (filter is_Call acts))) ''*''"
proof
  show "posted (snd (request ty payload s)) =
     posted s @
       [(Request \<lparr>req_type = ty,
                  req_requestId = mk_requestId (clock s) (requestId s),
                  req_payload = payload\<rparr>, ''*'')]"
    by (simp add: request_def Let_def)
  have "map snd (posted (run acts s0)) =
          map snd (posted s0) @ replicate (length (filter is_Call acts)) ''*''" for s0
  proof (induction acts arbitrary: s0)
    case Nil
    then show ?case by simp
  next
    case (Cons a acts)
    then show ?case by (cases a) (simp_all add: replicate_app_Cons_same)
  qed
  then show "map snd (posted (run acts (new_FrontierSDK b now))) =
     replicate (Suc (length (filter is_Call acts))) ''*''"
    by simp
qed

theorem request_posts_with_wildcard_target_witness:
  "isInFrontierApp_iframe standalone_page = False \<and>
   isInFrontierApp_origin standalone_page = Inr False \<and>
   posted (snd (request ''wallet:getBalance'' JUndefined (new_FrontierSDK standalone_page 1000))) =
     [(AppReady, ''*''),
      (Request \<lparr>req_type = ''wallet:getBalance'', req_requestId = ''1000-0'',
                 req_payload = JUndefined\<rparr>, ''*'')]"
proof -
  have a: "isInFrontierApp_iframe standalone_page = False"
    "isInFrontierApp_origin standalone_page = Inr False"
    by (simp_all add: isInFrontierApp_iframe_def isInFrontierApp_origin_def standalone_page_def
        window_self_def window_top_def window_parent_def)
  have b: "clock (new_FrontierSDK standalone_page 1000) = 1000"
    "requestId (new_FrontierSDK standalone_page 1000) = 0"
    by (simp_all add: new_FrontierSDK_def notifyReady_def)
  from request_posts_with_wildcard_target
    [of "''wallet:getBalance''" JUndefined "new_FrontierSDK standalone_page 1000"]
  have "posted (snd (request ''wallet:getBalance'' JUndefined (new_FrontierSDK standalone_page 1000))) =
     [(AppReady, ''*''),
      (Request \<lparr>req_type = ''wallet:getBalance'', req_requestId = ''1000-0'',
                 req_payload = JUndefined\<rparr>, ''*'')]"
    by (simp add: b mk_requestId_1000_0)
  with a show ?thesis by simp
qed

section \<open>Settled promises and forgotten identifiers stay as they are\<close>

lemma handleMessage_matching:
  assumes "source ev = Some (window_parent (browser s))"
    and "data ev = Some r" and "resp_requestId r = JStr rid"
    and "pendingRequests s rid = Some p"
  shows "handleMessage ev s =
           Inr (s\<lparr>promises :=
                    (if resp_type r = JStr ''error''
                     then reject p (new_Error (resp_error r)) (promises s)
                     else resolve p (resp_result r) (promises s)),
                  pendingRequests := (pendingRequests s)(rid := None)\<rparr>)"
  using assms by (simp add: handleMessage_def Map_get_def Map_delete_def)

lemma handleMessage_untracked:
  assumes "data ev = Some r" and "resp_requestId r = JStr rid"
    and "pendingRequests s rid = None"
  shows "handleMessage ev s = Inr s"
  using assms by (simp add: handleMessage_def Map_get_def)

lemma timeout_callback_promise_settled:
  "promises s ! q \<noteq> Pending \<Longrightarrow> promises (timeout_callback t s) ! q = promises s ! q"
  using timeout_callback_cases [of t s] by (auto simp: settle_settled)

lemma fold_timeout_promise_settled:
  "promises s ! q \<noteq> Pending \<Longrightarrow> promises (fold timeout_callback ts s) ! q = promises s ! q"
  by (induction ts arbitrary: s) (simp_all add: timeout_callback_promise_settled)

lemma step_promise_settled:
  assumes "q < length (promises s)" "promises s ! q \<noteq> Pending"
  shows "promises (step a s) ! q = promises s ! q"
proof (cases a)
  case (Call ty pl)
  with assms show ?thesis by (simp add: nth_append)
next
  case (Deliver ev)
  with assms dispatch_cases [of ev s] show ?thesis by (auto simp: settle_settled)
next
  case (Elapse d)
  with assms show ?thesis by (simp add: elapse_def Let_def fold_timeout_promise_settled)
next
  case Destroy
  then show ?thesis by simp
qed

lemma step_promises_length: "length (promises s) \<le> length (promises (step a s))"
  by (cases a) simp_all

lemma run_promise_settled:
  "q < length (promises s) \<Longrightarrow> promises s ! q \<noteq> Pending \<Longrightarrow>
     promises (run acts s) ! q = promises s ! q"
proof (induction acts arbitrary: s)
  case Nil
  then show ?case by simp
next
  case (Cons a acts)
  have "q < length (promises (step a s))"
    using Cons.prems(1) step_promises_length [of s a] by simp
  moreover have "promises (step a s) ! q = promises s ! q"
    using Cons.prems by (rule step_promise_settled)
  ultimately show ?case using Cons.IH [of "step a s"] Cons.prems(2) by simp
qed

lemma timeout_callback_untracked:
  "pendingRequests s rid = None \<Longrightarrow> pendingRequests (timeout_callback t s) rid = None"
  using timeout_callback_cases [of t s] by auto

lemma fold_timeout_untracked:
  "pendingRequests s rid = None \<Longrightarrow> pendingRequests (fold timeout_callback ts s) rid = None"
  by (induction ts arbitrary: s) (simp_all add: timeout_callback_untracked)

lemma step_stale:
  assumes "issued s rid" "pendingRequests s rid = None"
  shows "issued (step a s) rid \<and> pendingRequests (step a s) rid = None"
proof (cases a)
  case (Call ty pl)
  with assms fresh_not_issued [OF assms(1), of "clock s"] show ?thesis
    by (simp add: issued_mono [of s rid "snd (request ty pl s)"])
next
  case (Deliver ev)
  with assms dispatch_cases [of ev s] show ?thesis by (auto simp: issued_def)
next
  case (Elapse d)
  with assms show ?thesis
    by (simp add: issued_def) (simp add: elapse_def Let_def fold_timeout_untracked)
next
  case Destroy
  with assms show ?thesis by (simp add: issued_def)
qed

lemma run_stale:
  "issued s rid \<Longrightarrow> pendingRequests s rid = None \<Longrightarrow>
     issued (run acts s) rid \<and> pendingRequests (run acts s) rid = None"
proof (induction acts arbitrary: s)
  case Nil
  then show ?case by simp
next
  case (Cons a acts)
  from step_stale [OF Cons.prems, of a] Cons.IH [of "step a s"] show ?case by simp
qed

lemma tracked_facts:
  assumes "s = run acts (new_FrontierSDK b now)" and "pendingRequests s rid = Some p"
  shows "p < length (promises s)" "promises s ! p = Pending" "issued s rid"
proof -
  have "pend_ok s" using assms(1) inv_reachable [of acts b now] by (simp add: engine_inv_def)
  with assms(2) show "p < length (promises s)" "promises s ! p = Pending" "issued s rid"
    unfolding pend_ok_def by blast+
qed

section \<open>Evaluating the example\<close>

lemma one_call_fields:
  "pendingRequests one_call = [''1000-0'' \<mapsto> 0]"
  "promises one_call = [Pending]"
  "browser one_call = wallet_page"
  "requestId one_call = 1"
  "clock one_call = 1000"
  "listening one_call"
  "timers one_call = [\<lparr>fire_at = 31000, timer_requestId = ''1000-0'', timer_reject = 0\<rparr>]"
  by (simp_all add: one_call_def mk_requestId_1000_0 new_FrontierSDK_def notifyReady_def)

lemma window_parent_wallet_page: "window_parent wallet_page = 0"
  by (simp add: window_parent_def wallet_page_def)

section \<open>What a matching message does\<close>

text \<open>
  C5. In a reachable state, a message from the parent whose identifier is tracked finds
  the promise of that call pending. When its kind is \<open>''response''\<close> the promise is
  fulfilled with exactly the \<open>result\<close> the message carries; when its kind is
  \<open>''error''\<close> the promise is rejected with an error whose message is the \<open>error\<close>
  text of the message, unchanged.
\<close>

theorem matching_message_settles_with_its_content:
  assumes "s = run acts (new_FrontierSDK b now)"
    and "pendingRequests s rid = Some p"
    and "source ev = Some (window_parent (browser s))"
    and "data ev = Some r" and "resp_requestId r = JStr rid"
  shows "\<exists>s'. handleMessage ev s = Inr s' \<and> promises s ! p = Pending \<and>
           (resp_type r = JStr ''response'' \<longrightarrow> promises s' ! p = Fulfilled (resp_result r)) \<and>
           (\<forall>txt. resp_type r = JStr ''error'' \<and> resp_error r = Some txt \<longrightarrow>
              promises s' ! p = Rejected (Error txt))"
proof -
  note t = tracked_facts [OF assms(1,2)]
  let ?s' = "s\<lparr>promises :=
                 (if resp_type r = JStr ''error''
                  then reject p (new_Error (resp_error r)) (promises s)
                  else resolve p (resp_result r) (promises s)),
               pendingRequests := (pendingRequests s)(rid := None)\<rparr>"
  have "handleMessage ev s = Inr ?s'"
    by (rule handleMessage_matching [OF assms(3,4,5,2)])
  moreover have "resp_type r = JStr ''response'' \<longrightarrow> promises ?s' ! p = Fulfilled (resp_result r)"
    using t(1,2) by (simp add: resolve_def settle_pending)
  moreover have "\<forall>txt. resp_type r = JStr ''error'' \<and> resp_error r = Some txt \<longrightarrow>
              promises ?s' ! p = Rejected (Error txt)"
    using t(1,2) by (simp add: reject_def settle_pending new_Error_def)
  ultimately show ?thesis using t(2) by blast
qed

theorem matching_message_settles_with_its_content_witness:
  "(\<exists>s'. handleMessage (from_parent response_v) one_call = Inr s' \<and>
          promises s' ! 0 = Fulfilled (JStr ''v'')) \<and>
   (\<exists>s'. handleMessage (from_parent error_denied) one_call = Inr s' \<and>
          promises s' ! 0 = Rejected (Error ''denied''))"
proof
  have a: "one_call = run [Call ''storage:get'' (JObj [(''key'', JStr ''k'')])] (new_FrontierSDK wallet_page 1000)"
    by (simp add: one_call_def)
  have b: "pendingRequests one_call ''1000-0'' = Some 0"
    by (simp add: one_call_fields)
  have c: "source (from_parent r) = Some (window_parent (browser one_call))" for r
    by (simp add: from_parent_def one_call_fields window_parent_wallet_page)
  have d: "data (from_parent r) = Some r" for r
    by (simp add: from_parent_def)
  show "\<exists>s'. handleMessage (from_parent response_v) one_call = Inr s' \<and>
          promises s' ! 0 = Fulfilled (JStr ''v'')"
    using matching_message_settles_with_its_content [OF a b c d, of response_v]
    by (auto simp: response_v_def)
  show "\<exists>s'. handleMessage (from_parent error_denied) one_call = Inr s' \<and>
          promises s' ! 0 = Rejected (Error ''denied'')"
    using matching_message_settles_with_its_content [OF a b c d, of error_denied]
    by (auto simp: error_denied_def)
qed

text \<open>
  C10. In a reachable state, a message from the parent whose identifier is tracked
  rejects the promise of that call exactly when its kind is the string \<open>''error''\<close>.
  With any other kind (another string, a value that is no string, or no kind at all) the
  promise is fulfilled with the \<open>result\<close> field, which is \<open>JUndefined\<close> when the
  message has none.
\<close>

theorem rejected_iff_kind_is_error:
  assumes "s = run acts (new_FrontierSDK b now)"
    and "pendingRequests s rid = Some p"
    and "source ev = Some (window_parent (browser s))"
    and "data ev = Some r" and "resp_requestId r = JStr rid"
  shows "\<exists>s'. handleMessage ev s = Inr s' \<and> promises s ! p = Pending \<and>
           ((\<exists>e. promises s' ! p = Rejected e) \<longleftrightarrow> resp_type r = JStr ''error'') \<and>
           (resp_type r \<noteq> JStr ''error'' \<longrightarrow> promises s' ! p = Fulfilled (resp_result r))"
proof -
  note t = tracked_facts [OF assms(1,2)]
  let ?s' = "s\<lparr>promises :=
                 (if resp_type r = JStr ''error''
                  then reject p (new_Error (resp_error r)) (promises s)
                  else resolve p (resp_result r) (promises s)),
               pendingRequests := (pendingRequests s)(rid := None)\<rparr>"
  have "handleMessage ev s = Inr ?s'"
    by (rule handleMessage_matching [OF assms(3,4,5,2)])
  moreover have "(\<exists>e. promises ?s' ! p = Rejected e) \<longleftrightarrow> resp_type r = JStr ''error''"
    using t(1,2) by (simp add: resolve_def reject_def settle_pending)
  moreover have "resp_type r \<noteq> JStr ''error'' \<longrightarrow> promises ?s' ! p = Fulfilled (resp_result r)"
    using t(1,2) by (simp add: resolve_def settle_pending)
  ultimately show ?thesis using t(2) by blast
qed

theorem rejected_iff_kind_is_error_witness:
  "\<exists>s'. handleMessage (from_parent bare_reply) one_call = Inr s' \<and>
         promises s' ! 0 = Fulfilled JUndefined"
proof -
  have a: "one_call = run [Call ''storage:get'' (JObj [(''key'', JStr ''k'')])] (new_FrontierSDK wallet_page 1000)"
    by (simp add: one_call_def)
  have b: "pendingRequests one_call ''1000-0'' = Some 0"
    by (simp add: one_call_fields)
  have c: "source (from_parent bare_reply) = Some (window_parent (browser one_call))"
    by (simp add: from_parent_def one_call_fields window_parent_wallet_page)
  have d: "data (from_parent bare_reply) = Some bare_reply"
    by (simp add: from_parent_def)
  have e: "resp_requestId bare_reply = JStr ''1000-0''"
    by (simp add: bare_reply_def)
  show ?thesis
    using rejected_iff_kind_is_error [OF a b c d e]
    by (auto simp: bare_reply_def)
qed

text \<open>
  C1. In a reachable state, handling a message from the parent whose identifier is tracked
  turns the promise of that call from pending to settled, forgets the call, and changes
  nothing else; while the handler is registered, that is what dispatching the message
  does. From then on, whatever else happens, a message bearing the same identifier
  (from any sender) leaves the whole state as it is, and the outcome of the promise never
  changes.
\<close>

theorem matching_message_settles_exactly_once:
  assumes "s = run acts (new_FrontierSDK b now)"
    and "pendingRequests s rid = Some p"
    and "source ev = Some (window_parent (browser s))"
    and "data ev = Some r" and "resp_requestId r = JStr rid"
  shows "\<exists>s' outcome.
           handleMessage ev s = Inr s' \<and>
           promises s ! p = Pending \<and> outcome \<noteq> Pending \<and>
           s' = s\<lparr>promises := (promises s)[p := outcome],
                  pendingRequests := (pendingRequests s)(rid := None)\<rparr> \<and>
           promises s' ! p = outcome \<and> pendingRequests s' rid = None \<and>
           (listening s \<longrightarrow> dispatch ev s = s') \<and>
           (\<forall>acts' ev2 r2. data ev2 = Some r2 \<and> resp_requestId r2 = JStr rid \<longrightarrow>
              handleMessage ev2 (run acts' s') = Inr (run acts' s') \<and>
              promises (run acts' s') ! p = outcome)"
proof -
  note t = tracked_facts [OF assms(1,2)]
  define outcome where
    "outcome = (if resp_type r = JStr ''error'' then Rejected (new_Error (resp_error r))
                else Fulfilled (resp_result r))"
  define s' where
    "s' = s\<lparr>promises := (promises s)[p := outcome],
            pendingRequests := (pendingRequests s)(rid := None)\<rparr>"
  have o: "outcome \<noteq> Pending" by (simp add: outcome_def)
  have h: "handleMessage ev s = Inr s'"
    unfolding handleMessage_matching [OF assms(3,4,5,2)] s'_def outcome_def
    using t(1,2) by (simp add: resolve_def reject_def settle_def)
  have p: "promises s' ! p = outcome" "p < length (promises s')"
    using t(1) by (simp_all add: s'_def)
  have u: "pendingRequests s' rid = None" "issued s' rid"
    using t(3) by (simp_all add: s'_def issued_def)
  have later: "handleMessage ev2 (run acts' s') = Inr (run acts' s') \<and>
               promises (run acts' s') ! p = outcome"
    if "data ev2 = Some r2" "resp_requestId r2 = JStr rid" for acts' ev2 r2
  proof -
    from run_stale [OF u(2,1), of acts'] have "pendingRequests (run acts' s') rid = None" by simp
    with that have "handleMessage ev2 (run acts' s') = Inr (run acts' s')"
      by (rule handleMessage_untracked)
    moreover have "promises (run acts' s') ! p = outcome"
      using run_promise_settled [of p s' acts'] p o by simp
    ultimately show ?thesis by simp
  qed
  have d: "listening s \<longrightarrow> dispatch ev s = s'"
    using h by (simp add: dispatch_def)
  show ?thesis
    using h t(2) o p(1) u(1) d later s'_def by blast
qed

theorem matching_message_settles_exactly_once_witness:
  "\<exists>s'. handleMessage (from_parent response_v) one_call = Inr s' \<and>
         promises one_call ! 0 = Pending \<and>
         promises s' ! 0 = Fulfilled (JStr ''v'') \<and>
         pendingRequests s' ''1000-0'' = None \<and>
         handleMessage (from_parent error_denied) s' = Inr s' \<and>
         handleMessage (from_parent response_v) (run [Elapse 30000] s') = Inr (run [Elapse 30000] s') \<and>
         promises (run [Elapse 30000] s') ! 0 = Fulfilled (JStr ''v'')"
proof -
  have a: "one_call = run [Call ''storage:get'' (JObj [(''key'', JStr ''k'')])] (new_FrontierSDK wallet_page 1000)"
    by (simp add: one_call_def)
  have b: "pendingRequests one_call ''1000-0'' = Some 0"
    by (simp add: one_call_fields)
  have c: "source (from_parent response_v) = Some (window_parent (browser one_call))"
    by (simp add: from_parent_def one_call_fields window_parent_wallet_page)
  have d: "data (from_parent r) = Some r" for r
    by (simp add: from_parent_def)
  have e: "resp_requestId response_v = JStr ''1000-0''" "resp_requestId error_denied = JStr ''1000-0''"
    by (simp_all add: response_v_def error_denied_def)
  from matching_message_settles_exactly_once [OF a b c d e(1)]
  obtain s' outcome where s':
    "handleMessage (from_parent response_v) one_call = Inr s'"
    "promises one_call ! 0 = Pending"
    "promises s' ! 0 = outcome" "pendingRequests s' ''1000-0'' = None"
    "\<And>acts' ev2 r2. data ev2 = Some r2 \<Longrightarrow> resp_requestId r2 = JStr ''1000-0'' \<Longrightarrow>
        handleMessage ev2 (run acts' s') = Inr (run acts' s') \<and>
        promises (run acts' s') ! 0 = outcome"
    by blast
  have "handleMessage (from_parent response_v) one_call =
          Inr (one_call\<lparr>promises := resolve 0 (JStr ''v'') (promises one_call),
                        pendingRequests := (pendingRequests one_call)(''1000-0'' := None)\<rparr>)"
    using handleMessage_matching [OF c d e(1) b] by (simp add: response_v_def)
  with s'(1,3) have f: "outcome = Fulfilled (JStr ''v'')"
    by (auto simp: one_call_fields resolve_def settle_def)
  from s'(5) [OF d e(2), of "[]"] have g: "handleMessage (from_parent error_denied) s' = Inr s'"
    by simp
  from s'(5) [OF d e(1), of "[Elapse 30000]"] s'(1,2,3,4) f g show ?thesis
    by (intro exI [of _ s']) simp
qed

section \<open>After teardown\<close>

lemma listening_step: "\<not> listening s \<Longrightarrow> \<not> listening (step a s)"
  by (cases a) simp_all

lemma listening_run: "\<not> listening s \<Longrightarrow> \<not> listening (run acts s)"
  by (induction acts arbitrary: s) (simp_all add: listening_step)

lemma frozen_timeout_callback:
  assumes "frozen s p" "stale_timer s p t"
  shows "frozen (timeout_callback t s) p"
proof (cases "pendingRequests s (timer_requestId t)")
  case None
  then show ?thesis using assms(1) by (simp add: timeout_callback_def)
next
  case (Some q)
  then have ne: "timer_reject t \<noteq> p" using assms(2) by (auto simp: stale_timer_def)
  have "timeout_callback t s =
          s\<lparr>promises := settle (timer_reject t) (Rejected (Error ''Request timeout'')) (promises s),
            pendingRequests := (pendingRequests s)(timer_requestId t := None)\<rparr>"
    using Some by (simp add: timeout_callback_def reject_def)
  then show ?thesis
    using assms(1) ne unfolding frozen_def by (auto simp: settle_other)
qed

lemma stale_timer_timeout_callback:
  "stale_timer s p t' \<Longrightarrow> stale_timer (timeout_callback t s) p t'"
  unfolding stale_timer_def using timeout_callback_untracked [of s _ t]
  by (auto simp: issued_def)

lemma frozen_fold_timeout:
  "frozen s p \<Longrightarrow> \<forall>t \<in> set ts. stale_timer s p t \<Longrightarrow> frozen (fold timeout_callback ts s) p"
proof (induction ts arbitrary: s)
  case Nil
  then show ?case by simp
next
  case (Cons t ts)
  have "frozen (timeout_callback t s) p"
    using Cons.prems by (simp add: frozen_timeout_callback)
  moreover have "\<forall>u \<in> set ts. stale_timer (timeout_callback t s) p u"
    using Cons.prems by (simp add: stale_timer_timeout_callback)
  ultimately show ?case using Cons.IH by simp
qed

lemma stale_timer_fold_timeout:
  "stale_timer s p t' \<Longrightarrow> stale_timer (fold timeout_callback ts s) p t'"
  by (induction ts arbitrary: s) (simp_all add: stale_timer_timeout_callback)

lemma frozen_clock_timers [simp]: "frozen (s\<lparr>clock := c, timers := ts\<rparr>) p = frozen s p"
  by (simp add: frozen_def)

lemma stale_timer_clock_timers [simp]:
  "stale_timer (s\<lparr>clock := c, timers := ts\<rparr>) p t = stale_timer s p t"
  by (simp add: stale_timer_def issued_def)

lemma frozen_step:
  assumes "frozen s p" and "\<forall>t \<in> set (timers s). stale_timer s p t"
  shows "frozen (step a s) p \<and> (\<forall>t \<in> set (timers (step a s)). stale_timer (step a s) p t)"
proof (cases a)
  case (Call ty pl)
  have lt: "p < length (promises s)" using assms(1) by (simp add: frozen_def)
  have "frozen (snd (request ty pl s)) p"
    using assms(1) unfolding frozen_def by (auto simp: nth_append)
  moreover have "stale_timer (snd (request ty pl s)) p t" if "t \<in> set (timers s)" for t
    using assms(2) that fresh_not_issued [of s "timer_requestId t" "clock s"]
    unfolding stale_timer_def
    by (auto simp: issued_mono [of s _ "snd (request ty pl s)"])
  moreover have "stale_timer (snd (request ty pl s)) p
      \<lparr>fire_at = clock s + 30000, timer_requestId = mk_requestId (clock s) (requestId s),
       timer_reject = length (promises s)\<rparr>"
    using lt by (simp add: stale_timer_def)
  ultimately show ?thesis using Call by auto
next
  case (Deliver ev)
  have "frozen (dispatch ev s) p"
  proof -
    consider "dispatch ev s = s"
      | rid q v where "pendingRequests s rid = Some q"
          "dispatch ev s = s\<lparr>promises := settle q v (promises s),
                               pendingRequests := (pendingRequests s)(rid := None)\<rparr>"
      using dispatch_cases [of ev s] by blast
    then show ?thesis
    proof cases
      case 1
      then show ?thesis using assms(1) by simp
    next
      case 2
      from 2(1) assms(1) have "q \<noteq> p" by (auto simp: frozen_def)
      then show ?thesis
        using assms(1) unfolding 2(2) frozen_def by (simp add: settle_other)
    qed
  qed
  moreover have "stale_timer (dispatch ev s) p t" if "t \<in> set (timers s)" for t
    using dispatch_cases [of ev s] assms(2) that unfolding stale_timer_def issued_def
    by auto
  ultimately show ?thesis using Deliver by simp
next
  case (Elapse d)
  let ?now = "clock s + d"
  let ?s0 = "s\<lparr>clock := ?now, timers := filter (\<lambda>t. \<not> fire_at t \<le> ?now) (timers s)\<rparr>"
  have e: "elapse d s = fold timeout_callback (filter (\<lambda>t. fire_at t \<le> ?now) (timers s)) ?s0"
    by (simp add: elapse_def Let_def)
  have "frozen (elapse d s) p"
    unfolding e using assms by (intro frozen_fold_timeout) simp_all
  moreover have "stale_timer (elapse d s) p t" if "t \<in> set (timers s)" for t
    unfolding e using assms(2) that by (intro stale_timer_fold_timeout) simp
  ultimately show ?thesis using Elapse by simp
next
  case Destroy
  then show ?thesis
    using assms unfolding frozen_def stale_timer_def issued_def by simp
qed

lemma frozen_run:
  "frozen s p \<Longrightarrow> \<forall>t \<in> set (timers s). stale_timer s p t \<Longrightarrow> frozen (run acts s) p"
proof (induction acts arbitrary: s)
  case Nil
  then show ?case by simp
next
  case (Cons a acts)
  from frozen_step [OF Cons.prems, of a] Cons.IH [of "step a s"] show ?case by simp
qed

lemma frozen_destroy:
  assumes "engine_inv s" "pendingRequests s rid = Some p"
  shows "frozen (destroy s) p" "\<forall>t \<in> set (timers (destroy s)). stale_timer (destroy s) p t"
proof -
  show "frozen (destroy s) p"
    using assms unfolding engine_inv_def pend_ok_def frozen_def by auto
  show "\<forall>t \<in> set (timers (destroy s)). stale_timer (destroy s) p t"
    using assms(1) unfolding engine_inv_def timer_ok_def stale_timer_def issued_def by simp
qed

text \<open>
  C6. Tearing down a reachable engine deregisters the handler and empties the table of
  tracked calls without touching any promise. Afterwards, whatever happens, a dispatched
  message changes nothing, and the promise of every call that was tracked at teardown
  stays pending for ever: neither a matching message nor its timer settles it.
\<close>

theorem nothing_settles_after_destroy:
  assumes "s = run acts (new_FrontierSDK b now)"
  shows "\<not> listening (destroy s) \<and>
         pendingRequests (destroy s) = Map.empty \<and>
         promises (destroy s) = promises s \<and>
         (\<forall>acts' ev. dispatch ev (run acts' (destroy s)) = run acts' (destroy s)) \<and>
         (\<forall>rid p acts'. pendingRequests s rid = Some p \<longrightarrow>
            promises (run acts' (destroy s)) ! p = Pending)"
proof -
  have i: "engine_inv s" using assms by (simp add: inv_reachable)
  have "dispatch ev (run acts' (destroy s)) = run acts' (destroy s)" for acts' ev
    using listening_run [of "destroy s" acts'] by (simp add: dispatch_def)
  moreover have "promises (run acts' (destroy s)) ! p = Pending"
    if "pendingRequests s rid = Some p" for rid p acts'
    using frozen_run [OF frozen_destroy [OF i that], of acts'] by (simp add: frozen_def)
  ultimately show ?thesis by simp
qed

theorem nothing_settles_after_destroy_witness:
  "pendingRequests one_call ''1000-0'' = Some 0 \<and>
   promises (run [Deliver (from_parent response_v), Elapse 30000] (destroy one_call)) ! 0 = Pending \<and>
   dispatch (from_parent response_v) (destroy one_call) = destroy one_call"
proof -
  have a: "one_call = run [Call ''storage:get'' (JObj [(''key'', JStr ''k'')])] (new_FrontierSDK wallet_page 1000)"
    by (simp add: one_call_def)
  have b: "pendingRequests one_call ''1000-0'' = Some 0"
    by (simp add: one_call_fields)
  from nothing_settles_after_destroy [OF a]
  have "\<forall>acts' ev. dispatch ev (run acts' (destroy one_call)) = run acts' (destroy one_call)"
    and "\<forall>rid p acts'. pendingRequests one_call rid = Some p \<longrightarrow>
            promises (run acts' (destroy one_call)) ! p = Pending"
    by blast+
  from this(1) [rule_format, of "from_parent response_v" "[]"]
    this(2) [rule_format, OF b, of "[Deliver (from_parent response_v), Elapse 30000]"] b
  show ?thesis by (simp only: run_Nil simp_thms)
qed

section \<open>Which senders are honoured\<close>

lemma one_call_evil_fields:
  "pendingRequests one_call_evil = [''1000-0'' \<mapsto> 0]"
  "promises one_call_evil = [Pending]"
  "browser one_call_evil = evil_page"
  by (simp_all add: one_call_evil_def mk_requestId_1000_0 new_FrontierSDK_def notifyReady_def)

text \<open>
  C4, as stated, fails: the parent of \<open>evil_page\<close> has an origin outside the allow-list
  and the origin check reports no trusted ancestor, yet its reply to the pending call is
  honoured: the promise is fulfilled and the call forgotten.
\<close>

theorem untrusted_parent_reply_is_honoured:
  "origin evil_reply \<notin> set ALLOWED_ORIGINS \<and>
   isInFrontierApp_origin (browser one_call_evil) = Inr False \<and>
   pendingRequests one_call_evil ''1000-0'' = Some 0 \<and>
   promises one_call_evil ! 0 = Pending \<and>
   handleMessage evil_reply one_call_evil \<noteq> Inr one_call_evil \<and>
   promises (projr (handleMessage evil_reply one_call_evil)) ! 0 = Fulfilled (JStr ''v'') \<and>
   pendingRequests (projr (handleMessage evil_reply one_call_evil)) ''1000-0'' = None"
proof -
  have a: "origin evil_reply \<notin> set ALLOWED_ORIGINS"
    by (simp add: evil_reply_def ALLOWED_ORIGINS_def)
  have b: "isInFrontierApp_origin (browser one_call_evil) = Inr False"
    by (simp add: one_call_evil_fields isInFrontierApp_origin_def evil_page_def window_parent_def
        window_self_def try_block_def catch_block_def ALLOWED_ORIGINS_def)
  have c: "handleMessage evil_reply one_call_evil =
             Inr (one_call_evil\<lparr>promises := [Fulfilled (JStr ''v'')],
                                 pendingRequests := [''1000-0'' \<mapsto> 0](''1000-0'' := None)\<rparr>)"
    by (simp add: handleMessage_def evil_reply_def one_call_evil_fields evil_page_def
        window_parent_def response_v_def Map_get_def Map_delete_def resolve_def settle_def)
  have d: "handleMessage evil_reply one_call_evil \<noteq> Inr one_call_evil"
  proof
    assume "handleMessage evil_reply one_call_evil = Inr one_call_evil"
    then have "promises (projr (handleMessage evil_reply one_call_evil)) = promises one_call_evil"
      by simp
    then show False by (simp add: c one_call_evil_fields)
  qed
  have e: "promises (projr (handleMessage evil_reply one_call_evil)) ! 0 = Fulfilled (JStr ''v'')"
    "pendingRequests (projr (handleMessage evil_reply one_call_evil)) ''1000-0'' = None"
    by (simp_all add: c)
  have f: "pendingRequests one_call_evil ''1000-0'' = Some 0" "promises one_call_evil ! 0 = Pending"
    by (simp_all add: one_call_evil_fields)
  from a b d e f show ?thesis by blast
qed

text \<open>
  C4, amended. A message is honoured only if its source is \<^verbatim>\<open>window.parent\<close>: from any
  other source (or none) the handler returns the state unchanged, and so does dispatching
  it. The origin of the sender plays no part: changing it never changes what the handler
  does.
\<close>

theorem only_parent_source_is_honoured:
  "(source ev \<noteq> Some (window_parent (browser s)) \<longrightarrow>
      handleMessage ev s = Inr s \<and> dispatch ev s = s) \<and>
   (\<forall>s'. handleMessage ev s = Inr s' \<and> s' \<noteq> s \<longrightarrow>
      source ev = Some (window_parent (browser s))) \<and>
   handleMessage (ev\<lparr>origin := other\<rparr>) s = handleMessage ev s"
  by (auto simp: handleMessage_def dispatch_def)

theorem only_parent_source_is_honoured_witness:
  "source sibling_reply \<noteq> Some (window_parent (browser one_call)) \<and>
   pendingRequests one_call ''1000-0'' = Some 0 \<and>
   handleMessage sibling_reply one_call = Inr one_call \<and>
   dispatch sibling_reply one_call = one_call"
proof -
  have a: "source sibling_reply \<noteq> Some (window_parent (browser one_call))"
    by (simp add: sibling_reply_def one_call_fields window_parent_wallet_page)
  have b: "pendingRequests one_call ''1000-0'' = Some 0"
    by (simp add: one_call_fields)
  from only_parent_source_is_honoured [of sibling_reply one_call] a b show ?thesis
    by blast
qed

section \<open>The deadline\<close>

lemma timedout_step: "timedout s rid p \<Longrightarrow> timedout (step a s) rid p"
  unfolding timedout_def
  using step_stale [of s rid a] step_promise_settled [of p s a] step_promises_length [of s a]
  by auto

lemma timedout_run: "timedout s rid p \<Longrightarrow> timedout (run acts s) rid p"
  by (induction acts arbitrary: s) (simp_all add: timedout_step)

lemma timedout_timeout_callback: "timedout s rid p \<Longrightarrow> timedout (timeout_callback t s) rid p"
  unfolding timedout_def
  using timeout_callback_untracked [of s rid t] timeout_callback_promise_settled [of s p t]
  by (auto simp: issued_def)

lemma timedout_fold_timeout: "timedout s rid p \<Longrightarrow> timedout (fold timeout_callback ts s) rid p"
  by (induction ts arbitrary: s) (simp_all add: timedout_timeout_callback)

lemma wcore_timeout_other:
  assumes "timer_ok s t" "wcore s rid p" "timer_requestId t \<noteq> rid"
  shows "wcore (timeout_callback t s) rid p"
proof -
  have ne: "timer_reject t \<noteq> p"
    using assms unfolding timer_ok_def wcore_def by auto
  consider "timeout_callback t s = s"
    | "timeout_callback t s =
        s\<lparr>promises := settle (timer_reject t) (Rejected (Error ''Request timeout'')) (promises s),
          pendingRequests := (pendingRequests s)(timer_requestId t := None)\<rparr>"
    using timeout_callback_cases [of t s] by blast
  then show ?thesis
  proof cases
    case 1
    then show ?thesis using assms(2) by simp
  next
    case 2
    show ?thesis
      using assms(2,3) ne unfolding 2 wcore_def issued_def by (simp add: settle_other)
  qed
qed

lemma wcore_timeout_own:
  assumes "wcore s rid p" "timer_requestId t = rid" "timer_reject t = p"
  shows "timedout (timeout_callback t s) rid p"
  using assms unfolding wcore_def timedout_def
  by (simp add: timeout_callback_def reject_def settle_def issued_def)

lemma fold_timeout_waiting:
  assumes "pend_ok s" "\<forall>t \<in> set ts. timer_ok s t"
    and "\<forall>t \<in> set ts. timer_requestId t = rid \<longrightarrow> timer_reject t = p"
    and "wcore s rid p"
  shows "if \<exists>t \<in> set ts. timer_requestId t = rid
         then timedout (fold timeout_callback ts s) rid p
         else wcore (fold timeout_callback ts s) rid p"
  using assms
proof (induction ts arbitrary: s)
  case Nil
  then show ?case by simp
next
  case (Cons t ts)
  show ?case
  proof (cases "timer_requestId t = rid")
    case True
    with Cons.prems have "timedout (timeout_callback t s) rid p"
      by (intro wcore_timeout_own) simp_all
    then have "timedout (fold timeout_callback ts (timeout_callback t s)) rid p"
      by (rule timedout_fold_timeout)
    with True show ?thesis by simp
  next
    case False
    have 1: "pend_ok (timeout_callback t s)"
      using Cons.prems by (simp add: pend_ok_timeout_callback)
    have 2: "\<forall>u \<in> set ts. timer_ok (timeout_callback t s) u"
      using Cons.prems by (simp add: timer_ok_timeout_callback)
    have 3: "\<forall>u \<in> set ts. timer_requestId u = rid \<longrightarrow> timer_reject u = p"
      using Cons.prems by simp
    have 4: "wcore (timeout_callback t s) rid p"
      using Cons.prems False by (intro wcore_timeout_other) simp_all
    from Cons.IH [OF 1 2 3 4] False show ?thesis by simp
  qed
qed

lemma wcore_clock_timers [simp]: "wcore (s\<lparr>clock := c, timers := ts\<rparr>) rid p = wcore s rid p"
  by (simp add: wcore_def issued_def)

lemma waiting_request:
  assumes "engine_inv s" "waiting s rid p d"
  shows "waiting (snd (request ty pl s)) rid p d"
proof -
  have i: "issued s rid" using assms(2) by (simp add: waiting_def wcore_def)
  note ne = fresh_not_issued [OF i, of "clock s"]
  have "wcore (snd (request ty pl s)) rid p"
    using assms(2) ne unfolding waiting_def wcore_def
    by (simp add: nth_append issued_mono [of s rid "snd (request ty pl s)"])
  then show ?thesis
    using assms(2) ne unfolding waiting_def by auto
qed

lemma dispatch_cases_id:
  "dispatch ev s = s \<or>
   (\<exists>rid p v r. source ev = Some (window_parent (browser s)) \<and>
      data ev = Some r \<and> resp_requestId r = JStr rid \<and>
      pendingRequests s rid = Some p \<and>
      dispatch ev s = s\<lparr>promises := settle p v (promises s),
                         pendingRequests := (pendingRequests s)(rid := None)\<rparr>)"
proof (cases "listening s \<and> source ev = Some (window_parent (browser s))")
  case False
  then show ?thesis by (auto simp: dispatch_def handleMessage_def)
next
  case True
  show ?thesis
  proof (cases "data ev")
    case None
    with True show ?thesis by (simp add: dispatch_def handleMessage_def)
  next
    case (Some r)
    show ?thesis
    proof (cases "Map_get (pendingRequests s) (resp_requestId r)")
      case None
      with True Some show ?thesis by (simp add: dispatch_def handleMessage_def)
    next
      case p: (Some p)
      then obtain rid where rid: "resp_requestId r = JStr rid" "pendingRequests s rid = Some p"
        by (auto simp: Map_get_def split: jsval.splits)
      have "dispatch ev s =
              s\<lparr>promises :=
                  settle p (if resp_type r = JStr ''error'' then Rejected (new_Error (resp_error r))
                            else Fulfilled (resp_result r)) (promises s),
                pendingRequests := (pendingRequests s)(rid := None)\<rparr>"
        using True Some handleMessage_matching [OF _ Some rid]
        by (simp add: dispatch_def resolve_def reject_def)
      with True Some rid show ?thesis by blast
    qed
  qed
qed

lemma waiting_dispatch:
  assumes "engine_inv s" "waiting s rid p d" "\<not> answers (browser s) rid ev"
  shows "waiting (dispatch ev s) rid p d"
proof -
  consider "dispatch ev s = s"
    | rid' q v r where "source ev = Some (window_parent (browser s))"
        "data ev = Some r" "resp_requestId r = JStr rid'" "pendingRequests s rid' = Some q"
        "dispatch ev s = s\<lparr>promises := settle q v (promises s),
                             pendingRequests := (pendingRequests s)(rid' := None)\<rparr>"
    using dispatch_cases_id [of ev s] by blast
  then show ?thesis
  proof cases
    case 1
    then show ?thesis using assms(2) by simp
  next
    case 2
    have ne: "rid' \<noteq> rid" using assms(3) 2(1,2,3) by (auto simp: answers_def)
    have "pendingRequests s rid = Some p" using assms(2) by (simp add: waiting_def wcore_def)
    with 2(4) ne have "q \<noteq> p"
      using assms(1) unfolding engine_inv_def pend_ok_def by blast
    then show ?thesis
      using assms(2) ne unfolding 2(5) waiting_def wcore_def issued_def
      by (simp add: settle_other)
  qed
qed

lemma waiting_elapse:
  assumes "engine_inv s" "waiting s rid p d"
  shows "if clock s + e < d then waiting (elapse e s) rid p d else timedout (elapse e s) rid p"
proof -
  define now where "now = clock s + e"
  define due where "due = filter (\<lambda>t. fire_at t \<le> now) (timers s)"
  define rest where "rest = filter (\<lambda>t. \<not> fire_at t \<le> now) (timers s)"
  define s0 where "s0 = s\<lparr>clock := now, timers := rest\<rparr>"
  have el: "elapse e s = fold timeout_callback due s0"
    by (simp add: elapse_def Let_def now_def due_def rest_def s0_def)
  have own: "timer_reject t = p \<and> fire_at t = d"
    if "t \<in> set (timers s)" "timer_requestId t = rid" for t
    using assms(2) that unfolding waiting_def by blast
  obtain t0 where t0: "t0 \<in> set (timers s)" "timer_requestId t0 = rid"
    using assms(2) unfolding waiting_def by blast
  have t0d: "fire_at t0 = d" using own [OF t0] by simp
  have w: "wcore s rid p" using assms(2) by (simp add: waiting_def)
  have tk: "timer_ok s t" if "t \<in> set (timers s)" for t
    using assms(1) that unfolding engine_inv_def by blast
  have due_sub: "t \<in> set (timers s) \<and> fire_at t \<le> now" if "t \<in> set due" for t
    using that by (simp add: due_def)
  have rest_sub: "t \<in> set (timers s) \<and> \<not> fire_at t \<le> now" if "t \<in> set rest" for t
    using that by (simp add: rest_def)
  have 1: "pend_ok s0"
    using assms(1) by (simp add: s0_def engine_inv_def)
  have 2: "\<forall>t \<in> set due. timer_ok s0 t"
    using tk due_sub by (simp add: s0_def)
  have 3: "\<forall>t \<in> set due. timer_requestId t = rid \<longrightarrow> timer_reject t = p"
    using own due_sub by blast
  have 4: "wcore s0 rid p" using w by (simp add: s0_def)
  note f = fold_timeout_waiting [OF 1 2 3 4]
  have tm: "timers (elapse e s) = rest"
    by (simp add: el s0_def)
  show ?thesis
  proof (cases "now < d")
    case True
    have "timer_requestId t \<noteq> rid" if "t \<in> set due" for t
    proof
      assume "timer_requestId t = rid"
      with own [of t] due_sub [OF that] have "d \<le> now" by simp
      with True show False by simp
    qed
    then have "\<not> (\<exists>t \<in> set due. timer_requestId t = rid)" by blast
    with f have a: "wcore (elapse e s) rid p" by (simp only: el if_False)
    have "t0 \<in> set rest" using t0 t0d True by (simp add: rest_def)
    with t0(2) have b: "\<exists>t \<in> set (timers (elapse e s)). timer_requestId t = rid"
      unfolding tm by blast
    have c: "\<forall>t \<in> set (timers (elapse e s)).
        timer_requestId t = rid \<longrightarrow> timer_reject t = p \<and> fire_at t = d"
      unfolding tm using own rest_sub by blast
    have "clock (elapse e s) < d" using True by (simp add: now_def)
    with a b c have "waiting (elapse e s) rid p d" unfolding waiting_def by blast
    with True show ?thesis by (simp add: now_def)
  next
    case False
    have "t0 \<in> set due" using t0 t0d False by (simp add: due_def)
    with t0(2) have "\<exists>t \<in> set due. timer_requestId t = rid" by blast
    with f have "timedout (elapse e s) rid p" by (simp only: el if_True)
    with False show ?thesis by (simp add: now_def)
  qed
qed

lemma step_clock: "clock (step a s) = clock s + elapsed [a]"
  by (cases a) simp_all

lemma run_clock: "clock (run acts s) = clock s + elapsed acts"
proof (induction acts arbitrary: s)
  case Nil
  then show ?case by simp
next
  case (Cons a acts)
  then show ?case by (cases a) simp_all
qed

lemma unanswered_step:
  assumes "engine_inv s" "quiet (browser s) rid a"
    and "if clock s < d then waiting s rid p d else timedout s rid p"
  shows "if clock (step a s) < d then waiting (step a s) rid p d else timedout (step a s) rid p"
proof (cases "clock s < d")
  case False
  with assms(3) have "timedout (step a s) rid p" by (simp add: timedout_step)
  moreover have "\<not> clock (step a s) < d" using False by (simp add: step_clock)
  ultimately show ?thesis by simp
next
  case True
  with assms(3) have w: "waiting s rid p d" by simp
  show ?thesis
  proof (cases a)
    case (Call ty pl)
    with True waiting_request [OF assms(1) w] show ?thesis by simp
  next
    case (Deliver ev)
    with True assms(2) waiting_dispatch [OF assms(1) w] show ?thesis by simp
  next
    case (Elapse e)
    with waiting_elapse [OF assms(1) w, of e] show ?thesis by simp
  next
    case Destroy
    with assms(2) show ?thesis by simp
  qed
qed

lemma unanswered_run:
  assumes "engine_inv s" "list_all (quiet (browser s) rid) acts"
    and "if clock s < d then waiting s rid p d else timedout s rid p"
  shows "if clock (run acts s) < d then waiting (run acts s) rid p d
         else timedout (run acts s) rid p"
  using assms
proof (induction acts arbitrary: s)
  case Nil
  then show ?case by simp
next
  case (Cons a acts)
  have 1: "engine_inv (step a s)" using Cons.prems(1) by (rule inv_step)
  have 2: "list_all (quiet (browser (step a s)) rid) acts" using Cons.prems(2) by simp
  have 3: "if clock (step a s) < d then waiting (step a s) rid p d else timedout (step a s) rid p"
    using Cons.prems by (intro unanswered_step) simp_all
  from Cons.IH [OF 1 2 3] show ?case by simp
qed

lemma waiting_after_request:
  assumes "engine_inv s"
  shows "waiting (snd (request ty pl s)) (mk_requestId (clock s) (requestId s))
           (length (promises s)) (clock s + 30000)"
proof -
  have "timer_requestId t \<noteq> mk_requestId (clock s) (requestId s)" if "t \<in> set (timers s)" for t
    using assms that fresh_not_issued [of s "timer_requestId t" "clock s"]
    unfolding engine_inv_def timer_ok_def by auto
  then show ?thesis
    unfolding waiting_def wcore_def by (auto simp: issued_fresh)
qed

text \<open>
  C2. The code at the failing input: a call is issued at time 1000, the engine is torn
  down, no message is ever delivered, and 30000 ms pass. The timer has fired and is gone,
  yet the promise of the call is still pending instead of rejected with
  \<open>''Request timeout''\<close>: the callback found the call no longer tracked, because
  \<open>destroy\<close> had emptied the table, and did nothing. The repository's test of
  \<open>destroy\<close> expects the request to time out here.
\<close>

theorem timeout_lost_after_destroy:
  "issued_ids (posted abandoned_call) = [''1000-0''] \<and>
   clock abandoned_call = 31000 \<and>
   timers abandoned_call = [] \<and>
   promises abandoned_call = [Pending] \<and>
   promises abandoned_call ! 0 \<noteq> Rejected (Error ''Request timeout'')"
  by (simp add: abandoned_call_def new_FrontierSDK_def notifyReady_def request_def Let_def
      destroy_def elapse_def timeout_callback_def mk_requestId_1000_0)

text \<open>
  Without teardown the deadline works. A call is issued in a reachable state; afterwards
  the engine is not torn down and no message from the parent bears the call's identifier.
  While less than 30000 ms have passed, the call is tracked and its promise pending. Once
  30000 ms have passed, the promise is rejected with the error \<open>''Request timeout''\<close>
  and the call is no longer tracked; from then on, whatever else happens, a message
  bearing that identifier leaves the state unchanged and the promise keeps that outcome.
\<close>

theorem unanswered_call_times_out:
  assumes "s = run acts (new_FrontierSDK b now)"
    and "rid = mk_requestId (clock s) (requestId s)"
    and "p = fst (request ty payload s)"
    and "s2 = run acts' (snd (request ty payload s))"
    and "list_all (quiet b rid) acts'"
  shows "(elapsed acts' < 30000 \<longrightarrow>
            pendingRequests s2 rid = Some p \<and> promises s2 ! p = Pending) \<and>
         (30000 \<le> elapsed acts' \<longrightarrow>
            promises s2 ! p = Rejected (Error ''Request timeout'') \<and>
            pendingRequests s2 rid = None \<and>
            (\<forall>acts'' ev r. data ev = Some r \<and> resp_requestId r = JStr rid \<longrightarrow>
               handleMessage ev (run acts'' s2) = Inr (run acts'' s2) \<and>
               promises (run acts'' s2) ! p = Rejected (Error ''Request timeout'')))"
proof -
  let ?s1 = "snd (request ty payload s)"
  let ?d = "clock s + 30000"
  have i: "engine_inv s" using assms(1) by (simp add: inv_reachable)
  have i1: "engine_inv ?s1" using i by (rule inv_request)
  have w: "waiting ?s1 rid p ?d"
    using waiting_after_request [OF i, of ty payload] assms(2,3) by simp
  have q: "list_all (quiet (browser ?s1) rid) acts'"
    using assms(1,5) by simp
  have c: "clock s2 = clock s + elapsed acts'"
    using assms(4) by (simp add: run_clock)
  have u: "if clock s2 < ?d then waiting s2 rid p ?d else timedout s2 rid p"
    unfolding assms(4) using i1 q w by (intro unanswered_run) simp_all
  have early: "pendingRequests s2 rid = Some p \<and> promises s2 ! p = Pending"
    if "elapsed acts' < 30000"
    using u that c by (simp add: waiting_def wcore_def)
  have late: "timedout s2 rid p" if "30000 \<le> elapsed acts'"
    using u that c by simp
  have after: "handleMessage ev (run acts'' s2) = Inr (run acts'' s2) \<and>
               promises (run acts'' s2) ! p = Rejected (Error ''Request timeout'')"
    if "30000 \<le> elapsed acts'" "data ev = Some r" "resp_requestId r = JStr rid" for acts'' ev r
  proof -
    from timedout_run [OF late [OF that(1)], of acts'']
    have t: "pendingRequests (run acts'' s2) rid = None"
      "promises (run acts'' s2) ! p = Rejected (Error ''Request timeout'')"
      by (simp_all add: timedout_def)
    from handleMessage_untracked [OF that(2,3) t(1)] t(2) show ?thesis by simp
  qed
  have fin: "promises s2 ! p = Rejected (Error ''Request timeout'') \<and>
              pendingRequests s2 rid = None" if "30000 \<le> elapsed acts'"
    using late [OF that] by (simp add: timedout_def)
  show ?thesis
  proof (intro conjI impI allI)
    assume "elapsed acts' < 30000"
    from early [OF this] show "pendingRequests s2 rid = Some p" "promises s2 ! p = Pending"
      by simp_all
  next
    assume l: "30000 \<le> elapsed acts'"
    from fin [OF l] show "promises s2 ! p = Rejected (Error ''Request timeout'')"
      "pendingRequests s2 rid = None" by simp_all
    fix acts'' and ev :: MessageEvent and r
    assume "data ev = Some r \<and> resp_requestId r = JStr rid"
    with after [OF l, of ev r acts'']
    show "handleMessage ev (run acts'' s2) = Inr (run acts'' s2)"
      "promises (run acts'' s2) ! p = Rejected (Error ''Request timeout'')"
      by simp_all
  qed
qed

theorem unanswered_call_times_out_witness:
  "list_all (quiet wallet_page ''1000-0'') [Deliver sibling_reply, Elapse 29999, Elapse 1] \<and>
   promises unanswered_call ! 0 = Rejected (Error ''Request timeout'') \<and>
   pendingRequests unanswered_call ''1000-0'' = None \<and>
   handleMessage (from_parent response_v) unanswered_call = Inr unanswered_call"
proof -
  let ?s = "run [] (new_FrontierSDK wallet_page 1000)"
  have a: "?s = run [] (new_FrontierSDK wallet_page 1000)" by simp
  have b: "''1000-0'' = mk_requestId (clock ?s) (requestId ?s)"
    by (simp add: new_FrontierSDK_def notifyReady_def mk_requestId_1000_0)
  have c: "0 = fst (request ''wallet:getBalance'' JUndefined ?s)"
    by (simp add: new_FrontierSDK_def notifyReady_def)
  have d: "unanswered_call =
             run [Deliver sibling_reply, Elapse 29999, Elapse 1]
               (snd (request ''wallet:getBalance'' JUndefined ?s))"
    by (simp only: unanswered_call_def)
  have e: "list_all (quiet wallet_page ''1000-0'') [Deliver sibling_reply, Elapse 29999, Elapse 1]"
    by (simp add: answers_def sibling_reply_def window_parent_wallet_page)
  have f: "(30000::nat) \<le> elapsed [Deliver sibling_reply, Elapse 29999, Elapse 1]"
    by simp
  have g: "data (from_parent response_v) = Some response_v"
    "resp_requestId response_v = JStr ''1000-0''"
    by (simp_all add: from_parent_def response_v_def)
  from unanswered_call_times_out [OF a b c d e]
  have h: "30000 \<le> elapsed [Deliver sibling_reply, Elapse 29999, Elapse 1] \<longrightarrow>
            promises unanswered_call ! 0 = Rejected (Error ''Request timeout'') \<and>
            pendingRequests unanswered_call ''1000-0'' = None \<and>
            (\<forall>acts'' ev r. data ev = Some r \<and> resp_requestId r = JStr ''1000-0'' \<longrightarrow>
               handleMessage ev (run acts'' unanswered_call) = Inr (run acts'' unanswered_call) \<and>
               promises (run acts'' unanswered_call) ! 0 = Rejected (Error ''Request timeout''))"
    by (rule conjunct2)
  from h [rule_format, OF f] have
    k: "promises unanswered_call ! 0 = Rejected (Error ''Request timeout'')"
       "pendingRequests unanswered_call ''1000-0'' = None"
       "\<And>acts'' ev r. data ev = Some r \<and> resp_requestId r = JStr ''1000-0'' \<Longrightarrow>
               handleMessage ev (run acts'' unanswered_call) = Inr (run acts'' unanswered_call)"
    by blast+
  from k(3) [of "from_parent response_v" response_v "[]"] g
  have "handleMessage (from_parent response_v) unanswered_call = Inr unanswered_call"
    by simp
  with e k(1,2) show ?thesis by (simp only: simp_thms)
qed

section \<open>Embedding detection\<close>

lemma empty_not_allowed: "[] \<notin> set ALLOWED_ORIGINS"
  by (simp add: ALLOWED_ORIGINS_def)

lemma production_allowed: "''https://wallet.frontiertower.io'' \<in> set ALLOWED_ORIGINS"
  by (simp add: ALLOWED_ORIGINS_def)

lemma evil_not_allowed: "''https://evil.example'' \<notin> set ALLOWED_ORIGINS"
  by (simp add: ALLOWED_ORIGINS_def)

lemma origin_variant_trusted_referrer:
  assumes "window_parent b \<noteq> window_self b" "document_referrer b \<noteq> []"
    and "referrer_origin b = Inr ro" "ro \<in> set ALLOWED_ORIGINS"
  shows "isInFrontierApp_origin b = Inr True"
proof -
  have "ro \<noteq> []" using assms(4) empty_not_allowed by auto
  with assms have "try_block b = Inr (Some True)" by (simp add: try_block_def)
  with assms(1) show ?thesis by (simp add: isInFrontierApp_origin_def)
qed

lemma origin_variant_untrusted_referrer:
  assumes "window_parent b \<noteq> window_self b" "document_referrer b \<noteq> []"
    and "referrer_origin b = Inr ro" "ro \<notin> set ALLOWED_ORIGINS"
  shows "isInFrontierApp_origin b =
           Inr (case parent_location_origin b of Inl x \<Rightarrow> False | Inr lo \<Rightarrow> lo \<in> set ALLOWED_ORIGINS)"
proof (cases "parent_location_origin b")
  case (Inl x)
  with assms have "try_block b = Inl x" "catch_block b = Inr (Some False)"
    by (simp_all add: try_block_def catch_block_def)
  with assms(1) Inl show ?thesis by (simp add: isInFrontierApp_origin_def)
next
  case (Inr lo)
  with assms empty_not_allowed
  have "try_block b = (if lo \<in> set ALLOWED_ORIGINS then Inr (Some True) else Inr None)"
    by (auto simp: try_block_def)
  with assms(1) Inr show ?thesis by (simp add: isInFrontierApp_origin_def)
qed

text \<open>
  C7, as stated, fails in both variants. The frame-only variant answers true for a context
  framed by \<^verbatim>\<open>https://evil.example\<close>; the origin-checking variant answers true for a
  context whose referrer has that origin when the parent's own location is readable and
  allowed.
\<close>

theorem untrusted_referrer_accepted:
  "referrer_origin evil_page = Inr ''https://evil.example'' \<and>
   referrer_origin dev_page = Inr ''https://evil.example'' \<and>
   ''https://evil.example'' \<notin> set ALLOWED_ORIGINS \<and>
   window_parent evil_page \<noteq> window_self evil_page \<and>
   window_top evil_page \<noteq> window_self evil_page \<and>
   window_parent dev_page \<noteq> window_self dev_page \<and>
   isInFrontierApp_iframe evil_page = True \<and>
   isInFrontierApp_origin dev_page = Inr True"
  by (simp add: evil_page_def dev_page_def ALLOWED_ORIGINS_def window_parent_def window_top_def
      window_self_def isInFrontierApp_iframe_def isInFrontierApp_origin_def try_block_def)

text \<open>
  C7, amended. Take a context whose parent is another window and whose referrer has the
  origin \<open>ro\<close>. The origin-checking variant returns true when \<open>ro\<close> is in the allow-list,
  of which \<^verbatim>\<open>https://wallet.frontiertower.io\<close> is a member. When \<open>ro\<close> is outside the
  list it returns true exactly if the parent's location origin can be read and is in the
  list, and false otherwise. The frame-only variant does not depend on the referrer: it
  returns whether \<^verbatim>\<open>window.self\<close> differs from \<^verbatim>\<open>window.top\<close>.
\<close>

theorem isInFrontierApp_by_referrer_origin:
  assumes "window_parent b \<noteq> window_self b" and "document_referrer b \<noteq> []"
    and "referrer_origin b = Inr ro"
  shows "''https://wallet.frontiertower.io'' \<in> set ALLOWED_ORIGINS \<and>
         (ro \<in> set ALLOWED_ORIGINS \<longrightarrow> isInFrontierApp_origin b = Inr True) \<and>
         (ro \<notin> set ALLOWED_ORIGINS \<longrightarrow>
            isInFrontierApp_origin b =
              Inr (case parent_location_origin b of
                     Inl x \<Rightarrow> False
                   | Inr lo \<Rightarrow> lo \<in> set ALLOWED_ORIGINS)) \<and>
         isInFrontierApp_iframe b = (window_self b \<noteq> window_top b) \<and>
         isInFrontierApp_iframe (b\<lparr>document_referrer := r', referrer_origin := ro'\<rparr>) =
           isInFrontierApp_iframe b"
  using origin_variant_trusted_referrer [OF assms] origin_variant_untrusted_referrer [OF assms]
    production_allowed
  by (simp add: isInFrontierApp_iframe_def window_self_def window_top_def split: list.splits)

theorem isInFrontierApp_by_referrer_origin_witness:
  "isInFrontierApp_origin wallet_page = Inr True \<and>
   isInFrontierApp_origin evil_page = Inr False"
proof -
  have a: "window_parent wallet_page \<noteq> window_self wallet_page"
    "window_parent evil_page \<noteq> window_self evil_page"
    by (simp_all add: window_parent_def window_self_def wallet_page_def evil_page_def)
  have b: "document_referrer wallet_page \<noteq> []" "document_referrer evil_page \<noteq> []"
    by (simp_all add: wallet_page_def evil_page_def)
  have c: "referrer_origin wallet_page = Inr ''https://wallet.frontiertower.io''"
    "referrer_origin evil_page = Inr ''https://evil.example''"
    by (simp_all add: wallet_page_def evil_page_def)
  have d: "parent_location_origin evil_page = Inl SecurityError"
    by (simp add: evil_page_def)
  from isInFrontierApp_by_referrer_origin [OF a(1) b(1) c(1)]
    isInFrontierApp_by_referrer_origin [OF a(2) b(2) c(2)]
    production_allowed evil_not_allowed d
  show ?thesis by simp
qed

text \<open>
  C8, as stated, fails for the origin-checking variant: a context framed by a page of an
  untrusted origin, directly or two levels deep, has a top-most ancestor other than
  itself, and the function answers false.
\<close>

theorem embedded_untrusted_context_rejected:
  "window_top evil_page \<noteq> window_self evil_page \<and>
   isInFrontierApp_origin evil_page = Inr False \<and>
   length (ancestors nested_evil_page) = 2 \<and>
   window_top nested_evil_page \<noteq> window_self nested_evil_page \<and>
   isInFrontierApp_origin nested_evil_page = Inr False"
  by (simp add: evil_page_def nested_evil_page_def window_top_def window_self_def
      window_parent_def isInFrontierApp_origin_def try_block_def catch_block_def
      ALLOWED_ORIGINS_def)

text \<open>
  C8, amended. The frame-only variant classifies a context as embedded exactly when it
  has an ancestor and the top-most one is another window, whatever the immediate parent
  is; in a browsing-context tree (no window is its own proper ancestor) that is exactly
  when it has an ancestor, so a context nested two or more levels deep is classified as
  embedded. The origin-checking variant tests the immediate parent instead: it answers
  false when \<^verbatim>\<open>window.parent\<close> is the window itself, and otherwise, for a referrer
  with origin \<open>ro\<close>, it answers whether \<open>ro\<close> or the readable origin of the parent's
  location is in the allow-list (without a referrer, whether the latter is), so an
  embedded context of untrusted origin gets false.
  In a browsing-context tree the two tests of embedding agree.
\<close>

theorem embedded_check_of_each_variant:
  "isInFrontierApp_iframe b = (ancestors b \<noteq> [] \<and> last (ancestors b) \<noteq> window_id b) \<and>
   (window_id b \<notin> set (ancestors b) \<longrightarrow>
      isInFrontierApp_iframe b = (ancestors b \<noteq> []) \<and>
      (window_parent b \<noteq> window_self b) = (window_top b \<noteq> window_self b)) \<and>
   (window_id b \<notin> set (ancestors b) \<and> 2 \<le> length (ancestors b) \<longrightarrow>
      isInFrontierApp_iframe b) \<and>
   (window_parent b = window_self b \<longrightarrow> isInFrontierApp_origin b = Inr False) \<and>
   (window_parent b \<noteq> window_self b \<and> document_referrer b \<noteq> [] \<and>
    referrer_origin b = Inr ro \<longrightarrow>
      isInFrontierApp_origin b =
        Inr (ro \<in> set ALLOWED_ORIGINS \<or>
             (case parent_location_origin b of
                Inl x \<Rightarrow> False
              | Inr lo \<Rightarrow> lo \<in> set ALLOWED_ORIGINS))) \<and>
   (window_parent b \<noteq> window_self b \<and> document_referrer b = [] \<longrightarrow>
      isInFrontierApp_origin b =
        Inr (case parent_location_origin b of
               Inl x \<Rightarrow> False
             | Inr lo \<Rightarrow> lo \<in> set ALLOWED_ORIGINS))"
proof (intro conjI impI)
  show 1: "isInFrontierApp_iframe b = (ancestors b \<noteq> [] \<and> last (ancestors b) \<noteq> window_id b)"
    by (cases "ancestors b")
       (auto simp: isInFrontierApp_iframe_def window_self_def window_top_def)
  show "window_parent b = window_self b \<Longrightarrow> isInFrontierApp_origin b = Inr False"
    by (simp add: isInFrontierApp_origin_def)
  {
    assume wf: "window_id b \<notin> set (ancestors b)"
    have l: "last (ancestors b) \<noteq> window_id b" if "ancestors b \<noteq> []"
      using that wf by (metis last_in_set)
    with 1 show "isInFrontierApp_iframe b = (ancestors b \<noteq> [])" by auto
    show "(window_parent b \<noteq> window_self b) = (window_top b \<noteq> window_self b)"
      using wf l by (cases "ancestors b")
        (auto simp: window_parent_def window_self_def window_top_def)
  }
  {
    assume "window_id b \<notin> set (ancestors b) \<and> 2 \<le> length (ancestors b)"
    then have ne: "ancestors b \<noteq> []" and wf: "window_id b \<notin> set (ancestors b)"
      by auto
    have "ancestors b \<noteq> [] \<and> last (ancestors b) \<noteq> window_id b"
      using ne wf by (metis last_in_set)
    with 1 show "isInFrontierApp_iframe b" by simp
  }
  {
    assume a: "window_parent b \<noteq> window_self b \<and> document_referrer b \<noteq> [] \<and>
               referrer_origin b = Inr ro"
    show "isInFrontierApp_origin b =
        Inr (ro \<in> set ALLOWED_ORIGINS \<or>
             (case parent_location_origin b of
                Inl x \<Rightarrow> False
              | Inr lo \<Rightarrow> lo \<in> set ALLOWED_ORIGINS))"
    proof (cases "ro \<in> set ALLOWED_ORIGINS")
      case True
      with a origin_variant_trusted_referrer [of b ro] show ?thesis by simp
    next
      case False
      with a origin_variant_untrusted_referrer [of b ro] show ?thesis by simp
    qed
  }
  {
    assume "window_parent b \<noteq> window_self b \<and> document_referrer b = []"
    then show "isInFrontierApp_origin b =
        Inr (case parent_location_origin b of
               Inl x \<Rightarrow> False
             | Inr lo \<Rightarrow> lo \<in> set ALLOWED_ORIGINS)"
      using empty_not_allowed
      by (cases "parent_location_origin b")
         (auto simp: isInFrontierApp_origin_def try_block_def catch_block_def)
  }
qed

theorem embedded_check_of_each_variant_witness:
  "window_id nested_page \<notin> set (ancestors nested_page) \<and>
   length (ancestors nested_page) = 2 \<and>
   window_parent nested_page = 1 \<and> window_top nested_page = 0 \<and>
   isInFrontierApp_iframe nested_page = True \<and>
   isInFrontierApp_origin nested_page = Inr True \<and>
   isInFrontierApp_iframe nested_evil_page = True \<and>
   isInFrontierApp_origin nested_evil_page = Inr False \<and>
   isInFrontierApp_iframe standalone_page = False \<and>
   isInFrontierApp_origin standalone_page = Inr False"
proof -
  note t = embedded_check_of_each_variant
  have a: "window_id nested_page \<notin> set (ancestors nested_page)"
    "window_id nested_evil_page \<notin> set (ancestors nested_evil_page)"
    "length (ancestors nested_page) = 2" "length (ancestors nested_evil_page) = 2"
    "ancestors standalone_page = []"
    by (simp_all add: nested_page_def nested_evil_page_def standalone_page_def)
  have b: "window_parent nested_page = 1" "window_top nested_page = 0"
    "window_parent nested_page \<noteq> window_self nested_page"
    "window_parent nested_evil_page \<noteq> window_self nested_evil_page"
    "window_parent standalone_page = window_self standalone_page"
    by (simp_all add: nested_page_def nested_evil_page_def standalone_page_def
        window_parent_def window_top_def window_self_def)
  have c: "document_referrer nested_page \<noteq> []"
    "referrer_origin nested_page = Inr ''https://wallet.frontiertower.io''"
    "document_referrer nested_evil_page \<noteq> []"
    "referrer_origin nested_evil_page = Inr ''https://evil.example''"
    "parent_location_origin nested_evil_page = Inl SecurityError"
    by (simp_all add: nested_page_def nested_evil_page_def)
  note nested = t [THEN conjunct2, THEN conjunct2, THEN conjunct1, rule_format]
  note top_level = t [THEN conjunct2, THEN conjunct2, THEN conjunct2, THEN conjunct1, rule_format]
  note verdict = t [THEN conjunct2, THEN conjunct2, THEN conjunct2, THEN conjunct2,
      THEN conjunct1, rule_format]
  have 1: "isInFrontierApp_iframe nested_page" "isInFrontierApp_iframe nested_evil_page"
    using a by (simp_all add: nested)
  have 2: "isInFrontierApp_origin nested_page = Inr True"
    using verdict [of nested_page "''https://wallet.frontiertower.io''"] b(3) c(1,2)
      production_allowed by simp
  have 3: "isInFrontierApp_origin nested_evil_page = Inr False"
    using verdict [of nested_evil_page "''https://evil.example''"] b(4) c(3,4,5)
      evil_not_allowed by simp
  have 4: "isInFrontierApp_iframe standalone_page = False"
    using a(5) by (simp add: t [THEN conjunct1])
  have 5: "isInFrontierApp_origin standalone_page = Inr False"
    using b(5) by (rule top_level)
  from a(1,3) b(1,2) 1 2 3 4 5 show ?thesis by simp
qed

end
